theory Spec2Isabelle
  imports Main
begin

section \<open>The message ledger (class MessageDatabase)\<close>

text \<open>
  The ledger is the SQLite database behind \<^verbatim>\<open>MessageDatabase\<close>: table \<^verbatim>\<open>messages\<close>
  (primary key \<^verbatim>\<open>message_id\<close>) and table \<^verbatim>\<open>reactions\<close> (\<^verbatim>\<open>id INTEGER PRIMARY KEY
  AUTOINCREMENT\<close>, \<^verbatim>\<open>FOREIGN KEY (message_id) REFERENCES messages(message_id)\<close>).
  A table is the list of its rows in insertion order. Every SQL statement of the class
  is one function from the database to its result and the database after it; a
  statement that throws leaves the database as it was and returns the error.
\<close>

record StoredMessage =
  messageId :: string
  channelId :: string
  guildId :: string
  authorId :: string
  authorTag :: string
  originalContent :: string
  convertedContent :: string
  originalLinks :: string
  convertedLinks :: string
  botMessageId :: string
  createdAt :: int
  isReverted :: bool

text \<open>
  The object handed to \<^verbatim>\<open>storeReaction\<close>. JavaScript does not check its shape at run
  time: a property the caller did not set reads as \<^verbatim>\<open>undefined\<close>, here \<open>None\<close>.
  Interface \<^verbatim>\<open>StoredReaction\<close> names the reactor \<^verbatim>\<open>odId\<close>; the reaction handler and the
  tests name it \<^verbatim>\<open>userId\<close>. Both properties are kept so that either caller can be
  written down.
\<close>

record ReactionObject =
  reactionMessageId :: string
  odId :: "string option"
  userId :: "string option"
  userTag :: string
  emoji :: string
  reactedAt :: int
  isRevertReaction :: bool

text \<open>A row of table \<^verbatim>\<open>reactions\<close>, by its columns.\<close>

record ReactionRow =
  reaction_id :: nat
  message_id :: string
  user_id :: string
  user_tag :: string
  emoji_col :: string
  reacted_at :: int
  is_revert_reaction :: bool

text \<open>
  \<open>sqlite_sequence\<close> is the counter AUTOINCREMENT keeps (the largest id ever given).
  \<open>foreign_keys\<close> is the connection's \<^verbatim>\<open>PRAGMA foreign_keys\<close>: the class never sets it,
  so it is whatever the driver opens the connection with (better-sqlite3 builds SQLite
  with \<^verbatim>\<open>SQLITE_DEFAULT_FOREIGN_KEYS=1\<close>, that is, enforcement on).
\<close>

record Database =
  messages :: "StoredMessage list"
  reactions :: "ReactionRow list"
  sqlite_sequence :: nat
  foreign_keys :: bool

text \<open>
  The errors the statements of the class can throw: SQLite constraint violations
  (\<^verbatim>\<open>NOT NULL\<close>, \<^verbatim>\<open>FOREIGN KEY\<close>).
\<close>

datatype error = ConstraintError

definition newMessageDatabase :: Database where
  "newMessageDatabase =
     \<lparr>messages = [], reactions = [], sqlite_sequence = 0, foreign_keys = True\<rparr>"

definition hasMessage :: "string \<Rightarrow> Database \<Rightarrow> bool" where
  "hasMessage k db = (find (\<lambda>m. messageId m = k) (messages db) \<noteq> None)"

text \<open>
  \<^verbatim>\<open>INSERT OR REPLACE INTO messages (...) VALUES (..., 0)\<close>: the row with the same
  primary key, if any, is deleted and the new row is inserted with \<^verbatim>\<open>is_reverted = 0\<close>.
  The parent key is present again when the statement ends, so the foreign key of
  \<^verbatim>\<open>reactions\<close> is not violated.
\<close>

definition storeMessage :: "StoredMessage \<Rightarrow> Database \<Rightarrow> Database" where
  "storeMessage message db =
     db\<lparr>messages :=
          filter (\<lambda>m. messageId m \<noteq> messageId message) (messages db)
          @ [message\<lparr>isReverted := False\<rparr>]\<rparr>"

definition getMessage :: "string \<Rightarrow> Database \<Rightarrow> StoredMessage option" where
  "getMessage k db = find (\<lambda>m. messageId m = k) (messages db)"

text \<open>
  \<^verbatim>\<open>UPDATE messages SET is_reverted = 1 WHERE message_id = ?\<close>, then
  \<^verbatim>\<open>return result.changes > 0\<close>. SQLite counts every row the WHERE clause selects as
  changed, whether or not the stored value differs.
\<close>

definition markAsReverted :: "string \<Rightarrow> Database \<Rightarrow> bool \<times> Database" where
  "markAsReverted k db =
     (let changes = length (filter (\<lambda>m. messageId m = k) (messages db))
      in (changes > 0,
          db\<lparr>messages :=
               map (\<lambda>m. if messageId m = k then m\<lparr>isReverted := True\<rparr> else m)
                 (messages db)\<rparr>))"

text \<open>
  \<^verbatim>\<open>DELETE FROM messages WHERE ...\<close> for a row predicate: with foreign keys enforced
  the statement fails when a row it deletes is still referenced from \<^verbatim>\<open>reactions\<close>.
  Returns the number of rows deleted.
\<close>

definition deleteMessagesWhere ::
  "(StoredMessage \<Rightarrow> bool) \<Rightarrow> Database \<Rightarrow> error + (nat \<times> Database)" where
  "deleteMessagesWhere p db =
     (let doomed = filter p (messages db)
      in if foreign_keys db \<and>
            list_ex (\<lambda>r. message_id r \<in> set (map messageId doomed)) (reactions db)
         then Inl ConstraintError
         else Inr (length doomed,
                   db\<lparr>messages := filter (\<lambda>m. \<not> p m) (messages db)\<rparr>))"

definition deleteMessage :: "string \<Rightarrow> Database \<Rightarrow> error + (bool \<times> Database)" where
  "deleteMessage k db =
     (case deleteMessagesWhere (\<lambda>m. messageId m = k) db of
        Inl e \<Rightarrow> Inl e
      | Inr (changes, db') \<Rightarrow> Inr (changes > 0, db'))"

text \<open>
  \<^verbatim>\<open>INSERT INTO reactions (message_id, user_id, ...) VALUES (?, ?, ?, ?, ?, ?)\<close> bound
  to \<^verbatim>\<open>reaction.messageId, reaction.odId, ...\<close>. An \<^verbatim>\<open>undefined\<close> parameter is bound
  as \<^verbatim>\<open>NULL\<close>, and \<^verbatim>\<open>user_id\<close> is \<^verbatim>\<open>NOT NULL\<close>: the insert then fails on that constraint.
  With foreign keys enforced the row must reference a stored message. Returns
  \<^verbatim>\<open>lastInsertRowid\<close>.
\<close>

definition storeReaction :: "ReactionObject \<Rightarrow> Database \<Rightarrow> error + (nat \<times> Database)" where
  "storeReaction reaction db =
     (case odId reaction of
        None \<Rightarrow> Inl ConstraintError
      | Some reactor \<Rightarrow>
          if foreign_keys db \<and> \<not> hasMessage (reactionMessageId reaction) db
          then Inl ConstraintError
          else
            let rowid = Suc (sqlite_sequence db)
            in Inr (rowid,
                    db\<lparr>reactions := reactions db @
                          [\<lparr>reaction_id = rowid,
                            message_id = reactionMessageId reaction,
                            user_id = reactor,
                            user_tag = userTag reaction,
                            emoji_col = emoji reaction,
                            reacted_at = reactedAt reaction,
                            is_revert_reaction = isRevertReaction reaction\<rparr>],
                       sqlite_sequence := rowid\<rparr>))"

text \<open>
  \<^verbatim>\<open>SELECT ... FROM reactions WHERE message_id = ? ORDER BY reacted_at ASC\<close>; rows
  with equal \<^verbatim>\<open>reacted_at\<close> are kept in insertion order. The result objects carry the
  reactor as property \<^verbatim>\<open>odId\<close> (\<^verbatim>\<open>user_id as odId\<close>).
\<close>

definition getReactions :: "string \<Rightarrow> Database \<Rightarrow> ReactionRow list" where
  "getReactions k db = sort_key reacted_at (filter (\<lambda>r. message_id r = k) (reactions db))"

text \<open>
  \<^verbatim>\<open>cleanupOldMessages(daysOld)\<close> at time \<open>now\<close> (\<^verbatim>\<open>Date.now()\<close>, milliseconds): first
  the reactions of the messages created before the cutoff are deleted, then those
  messages; the number of messages deleted is returned.
\<close>

definition cutoffTime :: "int \<Rightarrow> int \<Rightarrow> int" where
  "cutoffTime now daysOld = now - daysOld * 24 * 60 * 60 * 1000"

definition isOld :: "int \<Rightarrow> StoredMessage \<Rightarrow> bool" where
  "isOld cutoff m = (createdAt m < cutoff)"

definition cleanupOldMessages :: "int \<Rightarrow> int \<Rightarrow> Database \<Rightarrow> error + (nat \<times> Database)" where
  "cleanupOldMessages now daysOld db =
     (let old = isOld (cutoffTime now daysOld);
          db1 = db\<lparr>reactions :=
                     filter (\<lambda>r. message_id r \<notin> set (map messageId (filter old (messages db))))
                       (reactions db)\<rparr>
      in deleteMessagesWhere old db1)"

record Stats =
  totalMessages :: nat
  totalReactions :: nat
  revertedCount :: nat

definition getStats :: "Database \<Rightarrow> Stats" where
  "getStats db =
     \<lparr>totalMessages = length (messages db),
      totalReactions = length (reactions db),
      revertedCount = length (filter isReverted (messages db))\<rparr>"

text \<open>
  Modelled from the spec: \<^verbatim>\<open>getMessageByBotMessageId\<close>, which the reaction handler of
  the embed-suppressing variant calls and the class under verification does not
  define. The spec: "getConversionByReplacementId(replacementMessageId) ->
  ConversionRecord | absent", served by "a secondary lookup index on
  replacement-message identity".
\<close>

definition getMessageByBotMessageId :: "string \<Rightarrow> Database \<Rightarrow> StoredMessage option" where
  "getMessageByBotMessageId b db = find (\<lambda>m. botMessageId m = b) (messages db)"

text \<open>The operations a caller can run against the ledger, and a run of them. An
  operation that throws leaves the ledger unchanged.\<close>

datatype operation =
    StoreMessage StoredMessage
  | MarkAsReverted string
  | DeleteMessage string
  | StoreReaction ReactionObject
  | CleanupOldMessages int int

fun step :: "Database \<Rightarrow> operation \<Rightarrow> Database" where
  "step db (StoreMessage m) = storeMessage m db"
| "step db (MarkAsReverted k) = snd (markAsReverted k db)"
| "step db (DeleteMessage k) =
     (case deleteMessage k db of Inl e \<Rightarrow> db | Inr (b, db') \<Rightarrow> db')"
| "step db (StoreReaction r) =
     (case storeReaction r db of Inl e \<Rightarrow> db | Inr (n, db') \<Rightarrow> db')"
| "step db (CleanupOldMessages now daysOld) =
     (case cleanupOldMessages now daysOld db of Inl e \<Rightarrow> db | Inr (n, db') \<Rightarrow> db')"

definition run :: "operation list \<Rightarrow> Database \<Rightarrow> Database" where
  "run ops db = foldl step db ops"

text \<open>A ledger is free of orphans when every reaction row references a stored message.\<close>

definition noOrphans :: "Database \<Rightarrow> bool" where
  "noOrphans db = list_all (\<lambda>r. hasMessage (message_id r) db) (reactions db)"

subsection \<open>The reaction handler's use of the ledger\<close>

text \<open>The robot emoji U+1F916, as its UTF-8 bytes.\<close>

definition ROBOT_EMOJI :: string where
  "ROBOT_EMOJI = [CHR 0xF0, CHR 0x9F, CHR 0xA4, CHR 0x96]"

text \<open>
  The ledger calls of the \<^verbatim>\<open>MessageReactionAdd\<close> handler, for a robot-emoji reaction
  by a user who is not a bot: look the message up by the id of the message reacted
  to, store the reaction (the handler's object literal sets \<^verbatim>\<open>userId\<close> and no
  \<^verbatim>\<open>odId\<close>; \<^verbatim>\<open>user.tag || 'Unknown'\<close>), stop unless the reactor is the author, then
  mark the message reverted. The result is \<^verbatim>\<open>didRevert\<close> and the ledger; an exception
  of \<^verbatim>\<open>storeReaction\<close> is not caught by the handler.
\<close>

definition reactionHandler ::
  "string \<Rightarrow> string \<Rightarrow> string option \<Rightarrow> int \<Rightarrow> Database \<Rightarrow> error + (bool \<times> Database)" where
  "reactionHandler msgId reactor reactorTag now db =
     (case getMessage msgId db of
        None \<Rightarrow> Inr (False, db)
      | Some storedMessage \<Rightarrow>
          (let isAuthorReaction = (reactor = authorId storedMessage)
           in (case storeReaction
                      \<lparr>reactionMessageId = msgId, odId = None, userId = Some reactor,
                       userTag = (case reactorTag of
                                    None \<Rightarrow> ''Unknown''
                                  | Some t \<Rightarrow> if t = [] then ''Unknown'' else t),
                       emoji = ROBOT_EMOJI, reactedAt = now,
                       isRevertReaction = isAuthorReaction\<rparr> db of
                 Inl e \<Rightarrow> Inl e
               | Inr (n, db1) \<Rightarrow>
                   (if \<not> isAuthorReaction then Inr (False, db1)
                    else Inr (markAsReverted msgId db1)))))"

subsection \<open>Example rows\<close>

definition exampleMessage :: "string \<Rightarrow> string \<Rightarrow> string \<Rightarrow> int \<Rightarrow> StoredMessage" where
  "exampleMessage k author botId t =
     \<lparr>messageId = k, channelId = ''channel'', guildId = ''guild'', authorId = author,
      authorTag = ''Author#0001'', originalContent = ''content'',
      convertedContent = ''converted'', originalLinks = ''[]'', convertedLinks = ''[]'',
      botMessageId = botId, createdAt = t, isReverted = False\<rparr>"

definition exampleReaction :: "string \<Rightarrow> string \<Rightarrow> int \<Rightarrow> ReactionObject" where
  "exampleReaction k reactor t =
     \<lparr>reactionMessageId = k, odId = Some reactor, userId = None, userTag = ''User#0001'',
      emoji = ROBOT_EMOJI, reactedAt = t, isRevertReaction = False\<rparr>"

definition exampleLedger :: Database where
  "exampleLedger = storeMessage (exampleMessage ''m1'' ''u1'' ''bot1'' 0) newMessageDatabase"

section \<open>The link utilities (module linkUtils)\<close>

text \<open>
  A JavaScript string is a sequence of UTF-16 code units; \<^verbatim>\<open>js\<close> reads a literal of this
  theory as one. A text is any list of code units, so it can hold emoji, markdown and
  line breaks.
\<close>

type_synonym jsstring = "nat list"

definition js :: "string \<Rightarrow> jsstring" where
  "js s = map of_char s"

text \<open>
  The code units matched by \<^verbatim>\<open>\s\<close>, so \<^verbatim>\<open>[^\s]\<close> matches every other one.
\<close>

definition isWhiteSpace :: "nat \<Rightarrow> bool" where
  "isWhiteSpace c =
     (c \<in> set [9, 10, 11, 12, 13, 32, 160, 5760, 8232, 8233, 8239, 8287, 12288, 65279]
      \<or> (8192 \<le> c \<and> c \<le> 8202))"

text \<open>
  Canonicalization of a code unit under flag \<^verbatim>\<open>i\<close> (without flag \<^verbatim>\<open>u\<close>): the letters a to z
  go to upper case. The patterns hold ASCII characters only, and a character outside ASCII
  never canonicalizes to an ASCII one, so only the ASCII part of the mapping is observable
  here.
\<close>

definition canonicalize :: "nat \<Rightarrow> nat" where
  "canonicalize c = (if 97 \<le> c \<and> c \<le> 122 then c - 32 else c)"

text \<open>
  The regular expressions of the module use literals, \<^verbatim>\<open>(...)?\<close>, \<^verbatim>\<open>(a|b)\<close>, concatenation
  and \<^verbatim>\<open>[^\s]+\<close>. The matcher is the backtracking matcher of the language: \<^verbatim>\<open>rmatch r s k\<close>
  matches \<^verbatim>\<open>r\<close> at the start of \<^verbatim>\<open>s\<close> and hands the rest to the continuation \<^verbatim>\<open>k\<close>; the
  first alternative that lets the continuation succeed wins, an optional group is tried
  present before absent, and \<^verbatim>\<open>[^\s]+\<close> is greedy.
\<close>

datatype regex =
    Lit jsstring
  | Opt regex
  | Alt regex regex
  | Seq regex regex
  | NotSpacePlus

fun matchLit :: "jsstring \<Rightarrow> jsstring \<Rightarrow> jsstring option" where
  "matchLit [] s = Some s"
| "matchLit (p # ps) [] = None"
| "matchLit (p # ps) (c # cs) =
     (if canonicalize c = canonicalize p then matchLit ps cs else None)"

fun backtrack :: "(jsstring \<Rightarrow> 'a option) \<Rightarrow> jsstring \<Rightarrow> nat \<Rightarrow> 'a option" where
  "backtrack k s 0 = None"
| "backtrack k s (Suc n) =
     (case k (drop (Suc n) s) of Some r \<Rightarrow> Some r | None \<Rightarrow> backtrack k s n)"

fun rmatch :: "regex \<Rightarrow> jsstring \<Rightarrow> (jsstring \<Rightarrow> 'a option) \<Rightarrow> 'a option" where
  "rmatch (Lit p) s k = (case matchLit p s of None \<Rightarrow> None | Some rest \<Rightarrow> k rest)"
| "rmatch (Opt r) s k = (case rmatch r s k of Some x \<Rightarrow> Some x | None \<Rightarrow> k s)"
| "rmatch (Alt a b) s k = (case rmatch a s k of Some x \<Rightarrow> Some x | None \<Rightarrow> rmatch b s k)"
| "rmatch (Seq a b) s k = rmatch a s (\<lambda>rest. rmatch b rest k)"
| "rmatch NotSpacePlus s k =
     backtrack k s (length (takeWhile (\<lambda>c. \<not> isWhiteSpace c) s))"

text \<open>
  A global (flag \<^verbatim>\<open>g\<close>) scan of a text from \<^verbatim>\<open>lastIndex = 0\<close>: the text is cut from left to
  right into the code units that no match covers and the matches, which do not overlap.
  After an empty match the scan advances by one code unit. \<^verbatim>\<open>String.prototype.match\<close> returns
  the matches in this order, \<^verbatim>\<open>String.prototype.replace\<close> replaces each match by the result
  of the replacer and keeps the other code units.
\<close>

datatype piece = Unmatched nat | Matched jsstring

function scan :: "regex \<Rightarrow> jsstring \<Rightarrow> piece list" where
  "scan r s =
     (case rmatch r s Some of
        None \<Rightarrow> (case s of [] \<Rightarrow> [] | c # cs \<Rightarrow> Unmatched c # scan r cs)
      | Some rest \<Rightarrow>
          (if length rest < length s
           then Matched (take (length s - length rest) s) # scan r rest
           else Matched [] # (case s of [] \<Rightarrow> [] | c # cs \<Rightarrow> Unmatched c # scan r cs)))"
  by pat_completeness auto
termination
  by (relation "measure (\<lambda>(r, s). length s)") auto

fun matchedTexts :: "piece list \<Rightarrow> jsstring list" where
  "matchedTexts [] = []"
| "matchedTexts (Unmatched c # ps) = matchedTexts ps"
| "matchedTexts (Matched m # ps) = m # matchedTexts ps"

fun replacePieces :: "(jsstring \<Rightarrow> jsstring) \<Rightarrow> piece list \<Rightarrow> jsstring" where
  "replacePieces f [] = []"
| "replacePieces f (Unmatched c # ps) = c # replacePieces f ps"
| "replacePieces f (Matched m # ps) = f m @ replacePieces f ps"

definition stringMatch :: "regex \<Rightarrow> jsstring \<Rightarrow> jsstring list" where
  "stringMatch r s = matchedTexts (scan r s)"

definition stringReplace :: "regex \<Rightarrow> (jsstring \<Rightarrow> jsstring) \<Rightarrow> jsstring \<Rightarrow> jsstring" where
  "stringReplace r f s = replacePieces f (scan r s)"

text \<open>
  \<^verbatim>\<open>[...new Set(links)]\<close>: a set keeps its elements in insertion order, and adding an
  element it already holds changes nothing.
\<close>

definition setAdd :: "'a list \<Rightarrow> 'a \<Rightarrow> 'a list" where
  "setAdd acc x = (if x \<in> set acc then acc else acc @ [x])"

definition newSet :: "'a list \<Rightarrow> 'a list" where
  "newSet xs = foldl setAdd [] xs"

text \<open>
  The two expressions \<^verbatim>\<open>/https?:\/\/(www\.)?reddit\.com/gi\<close> and
  \<^verbatim>\<open>/https?:\/\/(old|new)\.reddit\.com/gi\<close> of \<^verbatim>\<open>convertToRxddit\<close>, and the two of
  \<^verbatim>\<open>REDDIT_PATTERNS\<close>, which continue them with \<^verbatim>\<open>\/r\/[^\s]+\<close>.
\<close>

definition hostPattern1 :: regex where
  "hostPattern1 =
     Seq (Lit (js ''http'')) (Seq (Opt (Lit (js ''s''))) (Seq (Lit (js ''://''))
       (Seq (Opt (Lit (js ''www.''))) (Lit (js ''reddit.com'')))))"

definition hostPattern2 :: regex where
  "hostPattern2 =
     Seq (Lit (js ''http'')) (Seq (Opt (Lit (js ''s''))) (Seq (Lit (js ''://''))
       (Seq (Alt (Lit (js ''old'')) (Lit (js ''new''))) (Lit (js ''.reddit.com'')))))"

definition redditPattern1 :: regex where
  "redditPattern1 = Seq hostPattern1 (Seq (Lit (js ''/r/'')) NotSpacePlus)"

definition redditPattern2 :: regex where
  "redditPattern2 = Seq hostPattern2 (Seq (Lit (js ''/r/'')) NotSpacePlus)"

definition REDDIT_PATTERNS :: "regex list" where
  "REDDIT_PATTERNS = [redditPattern1, redditPattern2]"

text \<open>
  \<^verbatim>\<open>detectRedditLinks\<close>: for each pattern in turn, all matches of the pattern in the content
  are pushed onto \<^verbatim>\<open>links\<close>; the result is the array of the set of the links.
\<close>

definition detectRedditLinks :: "jsstring \<Rightarrow> jsstring list" where
  "detectRedditLinks content =
     newSet (foldl (\<lambda>links pattern. links @ stringMatch pattern content) [] REDDIT_PATTERNS)"

text \<open>
  \<^verbatim>\<open>convertToRxddit\<close>: every match of the first host expression is replaced by
  \<^verbatim>\<open>https://rxddit.com\<close>, then every match of the second in the result.
\<close>

definition convertToRxddit :: "jsstring \<Rightarrow> jsstring" where
  "convertToRxddit url =
     stringReplace hostPattern2 (\<lambda>m. js ''https://rxddit.com'')
       (stringReplace hostPattern1 (\<lambda>m. js ''https://rxddit.com'') url)"

text \<open>
  \<^verbatim>\<open>convertMessageLinks\<close>: for each pattern in turn, every match of the pattern in the content
  converted so far is replaced by its conversion.
\<close>

definition convertMessageLinks :: "jsstring \<Rightarrow> jsstring" where
  "convertMessageLinks content =
     foldl (\<lambda>convertedContent pattern. stringReplace pattern convertToRxddit convertedContent)
       content REDDIT_PATTERNS"

subsection \<open>Paths, spans and occurrences\<close>

text \<open>
  What follows the host in a URL: the text from the first slash after the two slashes of
  the scheme.
\<close>

definition pathAndQuery :: "jsstring \<Rightarrow> jsstring" where
  "pathAndQuery url = dropWhile (\<lambda>c. c \<noteq> 47) (drop 2 (dropWhile (\<lambda>c. c \<noteq> 47) url))"

text \<open>
  Shapes of texts. A text is free of hosts when neither host expression matches anywhere
  in it. The occurrences of a pattern in a text are its matches with the offsets at which
  they start.
\<close>

definition endOrSpace :: "jsstring \<Rightarrow> bool" where
  "endOrSpace s = (case s of [] \<Rightarrow> True | c # cs \<Rightarrow> isWhiteSpace c)"

definition hostFree :: "jsstring \<Rightarrow> bool" where
  "hostFree s = (stringMatch hostPattern1 s = [] \<and> stringMatch hostPattern2 s = [])"

fun offsets :: "nat \<Rightarrow> piece list \<Rightarrow> (nat \<times> jsstring) list" where
  "offsets i [] = []"
| "offsets i (Unmatched c # ps) = offsets (Suc i) ps"
| "offsets i (Matched m # ps) = (i, m) # offsets (i + length m) ps"

definition occurrences :: "regex \<Rightarrow> jsstring \<Rightarrow> (nat \<times> jsstring) list" where
  "occurrences r s = offsets 0 (scan r s)"

subsection \<open>Literals of the host expressions\<close>

text \<open>
  An expression without \<^verbatim>\<open>[^\s]+\<close> matches one of finitely many literals, listed by
  \<^verbatim>\<open>expand\<close> in the order in which the matcher tries them.
\<close>

fun literal :: "regex \<Rightarrow> bool" where
  "literal (Lit p) = True"
| "literal (Opt r) = literal r"
| "literal (Alt a b) = (literal a \<and> literal b)"
| "literal (Seq a b) = (literal a \<and> literal b)"
| "literal NotSpacePlus = False"

fun expand :: "regex \<Rightarrow> jsstring list" where
  "expand (Lit p) = [p]"
| "expand (Opt r) = expand r @ [Nil]"
| "expand (Alt a b) = expand a @ expand b"
| "expand (Seq a b) = concat (map (\<lambda>p. map (\<lambda>q. p @ q) (expand b)) (expand a))"
| "expand NotSpacePlus = []"

fun firstSome :: "('a \<Rightarrow> 'b option) \<Rightarrow> 'a list \<Rightarrow> 'b option" where
  "firstSome f [] = None"
| "firstSome f (x # xs) = (case f x of Some y \<Rightarrow> Some y | None \<Rightarrow> firstSome f xs)"

text \<open>
  A form of a host expression is a text that is one of its literals up to letter case.
\<close>

definition isForm :: "regex \<Rightarrow> jsstring \<Rightarrow> bool" where
  "isForm host h = (map canonicalize h \<in> set (map (map canonicalize) (expand host)))"

text \<open>
  A code unit that cannot continue a match of a host expression begun before it: white
  space, or the letter h, which the expressions hold at their start only.
\<close>

definition breaksHost :: "nat \<Rightarrow> bool" where
  "breaksHost w = (isWhiteSpace w \<or> canonicalize w = 72)"

definition delimited :: "jsstring \<Rightarrow> bool" where
  "delimited ctx = (case ctx of [] \<Rightarrow> True | w # ws \<Rightarrow> breaksHost w)"

text \<open>
  The four regular expressions of the module all begin with the letter h.
\<close>

definition startsWithH :: "regex \<Rightarrow> bool" where
  "startsWithH r = (\<forall>c cs. canonicalize c \<noteq> 72 \<longrightarrow> rmatch r (c # cs) Some = None)"

text \<open>
  The parts of a match of a pattern: a form of the host, \<^verbatim>\<open>/r/\<close> in either case, and a
  non-empty run of code units that are not white space.
\<close>

definition linkParts :: "regex \<Rightarrow> jsstring \<Rightarrow> jsstring \<Rightarrow> jsstring \<Rightarrow> bool" where
  "linkParts host h r3 tail =
     (isForm host h \<and> map canonicalize r3 = map canonicalize (js ''/r/'') \<and> tail \<noteq> []
      \<and> list_all (\<lambda>c. \<not> isWhiteSpace c) tail)"

subsection \<open>Tokens and the links of a text\<close>

text \<open>
  A text that starts with white space. What a text starts with: nothing, white space,
  the letter h, with which every match of the four expressions starts, or another code
  unit.
\<close>

definition startsWithSpace :: "jsstring \<Rightarrow> bool" where
  "startsWithSpace s = (case s of [] \<Rightarrow> False | c # cs \<Rightarrow> isWhiteSpace c)"

datatype kind = AtEnd | AtSpace | AtH | AtOther

definition headKind :: "jsstring \<Rightarrow> kind" where
  "headKind s =
     (case s of [] \<Rightarrow> AtEnd
      | c # cs \<Rightarrow> if isWhiteSpace c then AtSpace else if canonicalize c = 72 then AtH else AtOther)"

text \<open>
  One \<^verbatim>\<open>replace\<close> call of \<^verbatim>\<open>convertToRxddit\<close>.
\<close>

definition replaceHost :: "regex \<Rightarrow> jsstring \<Rightarrow> jsstring" where
  "replaceHost host s = stringReplace host (\<lambda>m. js ''https://rxddit.com'') s"

text \<open>
  A token is a text without white space. A match of a pattern never crosses white space
  and, once begun, runs to the end of its token.
\<close>

definition token :: "jsstring \<Rightarrow> bool" where
  "token t = list_all (\<lambda>c. \<not> isWhiteSpace c) t"

text \<open>
  The links of a text are the matches of either pattern, \<^verbatim>\<open>/p1|p2/g\<close>, found from left
  to right: \<^verbatim>\<open>scan linkPattern\<close> cuts a text into its links and the code units between
  them.
\<close>

definition linkPattern :: regex where
  "linkPattern = Alt redditPattern1 redditPattern2"

text \<open>
  The part of a pattern after the host, \<^verbatim>\<open>\/r\/[^\s]+\<close>, and whether it can match when
  the text goes on with a letter h.
\<close>

definition tailMatch :: "jsstring \<Rightarrow> jsstring option" where
  "tailMatch r = rmatch (Seq (Lit (js ''/r/'')) NotSpacePlus) r Some"

definition tailOk :: "jsstring \<Rightarrow> bool" where
  "tailOk r =
     (case matchLit (js ''/r/'') r of None \<Rightarrow> False | Some r2 \<Rightarrow> \<not> startsWithSpace r2)"

text \<open>
  The scan of a token: code units, then at most one match, which reaches the end of the
  token.
\<close>

definition tokenPieces :: "jsstring \<Rightarrow> jsstring \<Rightarrow> piece list" where
  "tokenPieces x M = map Unmatched x @ (if M = [] then [] else [Matched M])"

text \<open>
  A text that another text ends with.
\<close>

definition suffixOf :: "jsstring \<Rightarrow> jsstring \<Rightarrow> bool" where
  "suffixOf L M = (\<exists>x. M = x @ L)"

section \<open>Properties of the ledger\<close>

subsection \<open>Auxiliary facts\<close>

lemma hasMessage_iff: "hasMessage k db = (k \<in> set (map messageId (messages db)))"
  by (auto simp: hasMessage_def find_None_iff)

lemma markAsReverted_exists: "fst (markAsReverted k db) = hasMessage k db"
  by (auto simp: markAsReverted_def hasMessage_iff Let_def filter_empty_conv)

lemma find_filter_single:
  "find (\<lambda>m. f m = k) (filter (\<lambda>m. f m \<noteq> k) xs @ [y]) = (if f y = k then Some y else None)"
  by (induction xs) auto

lemma find_unique:
  "r \<in> set xs \<Longrightarrow> (\<forall>r' \<in> set xs. f r' = f r \<longrightarrow> r' = r) \<Longrightarrow> find (\<lambda>m. f m = f r) xs = Some r"
  by (induction xs) auto

lemma storeMessage_messages_key:
  "filter (\<lambda>m. messageId m = messageId r) (messages (storeMessage r db))
     = [r\<lparr>isReverted := False\<rparr>]"
  by (simp add: storeMessage_def filter_empty_conv)

lemma storeMessage_getMessage:
  "getMessage (messageId r) (storeMessage r db) = Some (r\<lparr>isReverted := False\<rparr>)"
  by (simp add: storeMessage_def getMessage_def find_filter_single)

lemma noOrphans_iff:
  "noOrphans db = (set (map message_id (reactions db)) \<subseteq> set (map messageId (messages db)))"
  by (auto simp: noOrphans_def list_all_iff hasMessage_iff)

lemma getReactions_Nil_iff:
  "(getReactions k db = []) = (k \<notin> set (map message_id (reactions db)))"
proof -
  have "(sort_key reacted_at xs = []) = (xs = [])" for xs :: "ReactionRow list"
    by (metis length_sort length_0_conv)
  then show ?thesis by (auto simp: getReactions_def filter_empty_conv)
qed

lemma stats_le: "revertedCount (getStats db) \<le> totalMessages (getStats db)"
  by (simp add: getStats_def)

subsection \<open>Reverting\<close>

text \<open>
  C1 (what the code does at the failing input): on a freshly stored, not yet reverted
  record the second \<^verbatim>\<open>markAsReverted\<close> call returns true again, where the claim (and
  the test "should prevent double revert") wants false: the UPDATE has no
  \<^verbatim>\<open>is_reverted = 0\<close> guard, so \<^verbatim>\<open>changes > 0\<close> only says that the record exists.
\<close>

theorem markAsReverted_second_call_true:
  "fst (markAsReverted ''m1''
         (storeMessage (exampleMessage ''m1'' ''u1'' ''bot1'' 0) newMessageDatabase)) = True
   \<and> fst (markAsReverted ''m1'' (snd (markAsReverted ''m1''
         (storeMessage (exampleMessage ''m1'' ''u1'' ''bot1'' 0) newMessageDatabase)))) = True"
  by (simp add: markAsReverted_def storeMessage_def newMessageDatabase_def exampleMessage_def)

subsection \<open>Storing a message twice\<close>

text \<open>
  C2: storing \<open>r1\<close> and later \<open>r2\<close> under the same message id leaves exactly one row
  for that id; it carries the content of \<open>r2\<close> and is not reverted, whatever
  operations (a revert among them) ran between the two calls.
\<close>

theorem storeMessage_twice:
  assumes "messageId r1 = messageId r2"
  shows "filter (\<lambda>m. messageId m = messageId r1)
           (messages (storeMessage r2 (run between (storeMessage r1 db))))
         = [r2\<lparr>isReverted := False\<rparr>]
       \<and> getMessage (messageId r1) (storeMessage r2 (run between (storeMessage r1 db)))
         = Some (r2\<lparr>isReverted := False\<rparr>)
       \<and> isReverted (r2\<lparr>isReverted := False\<rparr>) = False"
  using assms by (simp add: storeMessage_messages_key storeMessage_getMessage)

theorem storeMessage_twice_witness:
  "filter (\<lambda>m. messageId m = ''m1'')
     (messages (storeMessage ((exampleMessage ''m1'' ''u1'' ''bot2'' 5)\<lparr>authorTag := ''Updated#5678''\<rparr>)
        (run [MarkAsReverted ''m1'']
           (storeMessage (exampleMessage ''m1'' ''u1'' ''bot1'' 0) newMessageDatabase))))
   = [(exampleMessage ''m1'' ''u1'' ''bot2'' 5)\<lparr>authorTag := ''Updated#5678''\<rparr>]"
  using storeMessage_twice [of "exampleMessage ''m1'' ''u1'' ''bot1'' 0"
      "(exampleMessage ''m1'' ''u1'' ''bot2'' 5)\<lparr>authorTag := ''Updated#5678''\<rparr>"
      "[MarkAsReverted ''m1'']" newMessageDatabase]
  by (simp add: exampleMessage_def)

subsection \<open>Statistics\<close>

text \<open>
  C10: in every ledger state reached from the empty ledger by any sequence of
  operations, the number of reverted messages reported by \<^verbatim>\<open>getStats\<close> does not
  exceed the number of messages.
\<close>

theorem stats_reverted_le_total:
  "revertedCount (getStats (run ops newMessageDatabase))
     \<le> totalMessages (getStats (run ops newMessageDatabase))"
  by (rule stats_le)

theorem stats_reverted_le_total_witness:
  "revertedCount (getStats (run [StoreMessage (exampleMessage ''m1'' ''u1'' ''bot1'' 0),
        MarkAsReverted ''m1'', StoreMessage (exampleMessage ''m2'' ''u1'' ''bot2'' 0)]
        newMessageDatabase))
     \<le> totalMessages (getStats (run [StoreMessage (exampleMessage ''m1'' ''u1'' ''bot1'' 0),
        MarkAsReverted ''m1'', StoreMessage (exampleMessage ''m2'' ''u1'' ''bot2'' 0)]
        newMessageDatabase))"
  using stats_reverted_le_total [of "[StoreMessage (exampleMessage ''m1'' ''u1'' ''bot1'' 0),
        MarkAsReverted ''m1'', StoreMessage (exampleMessage ''m2'' ''u1'' ''bot2'' 0)]"]
  by simp

subsection \<open>Lookup by the id of the bot's message\<close>

text \<open>
  C3 (the claim as stated fails): \<^verbatim>\<open>storeMessage\<close> accepts two records that carry the
  same \<^verbatim>\<open>botMessageId\<close> (column \<^verbatim>\<open>bot_message_id TEXT NOT NULL\<close> is not unique; the tests
  store \<^verbatim>\<open>'bot'\<close> under several message ids) and keeps both, each found under its own
  message id. A lookup by the shared id returns one record, so it does not return the
  other one, which is just as much a stored record with that id.
\<close>

theorem getMessageByBotMessageId_shared_id:
  "getMessage ''m1'' (storeMessage (exampleMessage ''m2'' ''u1'' ''bot'' 0)
       (storeMessage (exampleMessage ''m1'' ''u1'' ''bot'' 0) newMessageDatabase))
     = Some (exampleMessage ''m1'' ''u1'' ''bot'' 0)
   \<and> getMessage ''m2'' (storeMessage (exampleMessage ''m2'' ''u1'' ''bot'' 0)
       (storeMessage (exampleMessage ''m1'' ''u1'' ''bot'' 0) newMessageDatabase))
     = Some (exampleMessage ''m2'' ''u1'' ''bot'' 0)
   \<and> botMessageId (exampleMessage ''m2'' ''u1'' ''bot'' 0)
     = botMessageId (exampleMessage ''m1'' ''u1'' ''bot'' 0)
   \<and> getMessageByBotMessageId (botMessageId (exampleMessage ''m2'' ''u1'' ''bot'' 0))
       (storeMessage (exampleMessage ''m2'' ''u1'' ''bot'' 0)
         (storeMessage (exampleMessage ''m1'' ''u1'' ''bot'' 0) newMessageDatabase))
     \<noteq> Some (exampleMessage ''m2'' ''u1'' ''bot'' 0)"
  by (simp add: getMessageByBotMessageId_def getMessage_def storeMessage_def
        newMessageDatabase_def exampleMessage_def)

text \<open>
  C3 (amended): the ledger answers both lookups. By the bot message's id: when some
  stored record carries the id, the lookup returns a record, and whatever record it
  returns is a stored one that carries the id; it is the record \<open>r\<close> itself when no
  other stored record shares the \<^verbatim>\<open>botMessageId\<close> of \<open>r\<close>; when no stored record carries
  the id, the lookup returns nothing. By the original message's id the ledger returns
  the record stored under that key.
\<close>

theorem getMessageByBotMessageId_lookup:
  "(b \<in> botMessageId ` set (messages db)
      \<longrightarrow> (\<exists>r'. getMessageByBotMessageId b db = Some r'
               \<and> r' \<in> set (messages db) \<and> botMessageId r' = b))
   \<and> (getMessageByBotMessageId b db = Some r'
      \<longrightarrow> r' \<in> set (messages db) \<and> botMessageId r' = b)
   \<and> (r \<in> set (messages db)
      \<and> (\<forall>r' \<in> set (messages db). botMessageId r' = botMessageId r \<longrightarrow> r' = r)
      \<longrightarrow> getMessageByBotMessageId (botMessageId r) db = Some r)
   \<and> (b \<notin> botMessageId ` set (messages db) \<longrightarrow> getMessageByBotMessageId b db = None)
   \<and> (r \<in> set (messages db) \<and> distinct (map messageId (messages db))
      \<longrightarrow> getMessage (messageId r) db = Some r)"
proof (intro conjI impI)
  assume "b \<in> botMessageId ` set (messages db)"
  then have "find (\<lambda>m. botMessageId m = b) (messages db) \<noteq> None"
    by (auto simp: find_None_iff)
  then obtain x where x: "find (\<lambda>m. botMessageId m = b) (messages db) = Some x"
    by auto
  then have "x \<in> set (messages db) \<and> botMessageId x = b"
    by (auto simp: find_Some_iff)
  with x show "\<exists>r'. getMessageByBotMessageId b db = Some r'
      \<and> r' \<in> set (messages db) \<and> botMessageId r' = b"
    by (simp add: getMessageByBotMessageId_def)
next
  assume "r \<in> set (messages db)
    \<and> (\<forall>r' \<in> set (messages db). botMessageId r' = botMessageId r \<longrightarrow> r' = r)"
  then show "getMessageByBotMessageId (botMessageId r) db = Some r"
    unfolding getMessageByBotMessageId_def by (intro find_unique) auto
next
  assume "b \<notin> botMessageId ` set (messages db)"
  then show "getMessageByBotMessageId b db = None"
    by (auto simp: getMessageByBotMessageId_def find_None_iff)
next
  assume found: "getMessageByBotMessageId b db = Some r'"
  then show "r' \<in> set (messages db)"
    by (auto simp: getMessageByBotMessageId_def find_Some_iff)
  from found show "botMessageId r' = b"
    by (auto simp: getMessageByBotMessageId_def find_Some_iff)
next
  assume stored: "r \<in> set (messages db) \<and> distinct (map messageId (messages db))"
  then have "\<forall>r' \<in> set (messages db). messageId r' = messageId r \<longrightarrow> r' = r"
    by (auto simp: distinct_map inj_on_def)
  with stored show "getMessage (messageId r) db = Some r"
    unfolding getMessage_def by (intro find_unique) auto
qed

theorem getMessageByBotMessageId_lookup_witness:
  "getMessageByBotMessageId ''bot2''
      (storeMessage (exampleMessage ''m2'' ''u1'' ''bot2'' 0)
         (storeMessage (exampleMessage ''m1'' ''u1'' ''bot1'' 0) newMessageDatabase))
     = Some (exampleMessage ''m2'' ''u1'' ''bot2'' 0)
   \<and> getMessageByBotMessageId ''bot3''
      (storeMessage (exampleMessage ''m2'' ''u1'' ''bot2'' 0)
         (storeMessage (exampleMessage ''m1'' ''u1'' ''bot1'' 0) newMessageDatabase))
     = None
   \<and> getMessage ''m2''
      (storeMessage (exampleMessage ''m2'' ''u1'' ''bot2'' 0)
         (storeMessage (exampleMessage ''m1'' ''u1'' ''bot1'' 0) newMessageDatabase))
     = Some (exampleMessage ''m2'' ''u1'' ''bot2'' 0)"
  using getMessageByBotMessageId_lookup [of "''bot3''"
      "storeMessage (exampleMessage ''m2'' ''u1'' ''bot2'' 0)
         (storeMessage (exampleMessage ''m1'' ''u1'' ''bot1'' 0) newMessageDatabase)"
      "exampleMessage ''m2'' ''u1'' ''bot2'' 0" "exampleMessage ''m2'' ''u1'' ''bot2'' 0"]
  by (simp add: storeMessage_def newMessageDatabase_def exampleMessage_def)

subsection \<open>The reaction handler and the reactor's id\<close>

text \<open>
  C8 (what the code does at the failing input): for a tracked message the handler
  hands \<^verbatim>\<open>storeReaction\<close> an object that names the reactor \<^verbatim>\<open>userId\<close>, the ledger reads
  \<^verbatim>\<open>reaction.odId\<close>, which is \<^verbatim>\<open>undefined\<close> and bound as \<^verbatim>\<open>NULL\<close>, and the insert fails on
  \<^verbatim>\<open>user_id NOT NULL\<close>: the handler throws, no reaction is stored, and the reactor's id
  is not there to be listed.
\<close>

theorem reactionHandler_reactor_not_stored:
  "reactionHandler ''m1'' ''u1'' (Some ''Author#0001'') 1000
      (storeMessage (exampleMessage ''m1'' ''u1'' ''bot1'' 0) newMessageDatabase)
     = Inl ConstraintError
   \<and> getReactions ''m1''
        (storeMessage (exampleMessage ''m1'' ''u1'' ''bot1'' 0) newMessageDatabase) = []"
  by (simp add: reactionHandler_def getMessage_def storeMessage_def newMessageDatabase_def
        exampleMessage_def storeReaction_def getReactions_def)

subsection \<open>Cleaning up old messages\<close>

lemma cleanup_result:
  "cleanupOldMessages now daysOld db =
     Inr (length (filter (isOld (cutoffTime now daysOld)) (messages db)),
          db\<lparr>reactions :=
               filter (\<lambda>r. message_id r
                    \<notin> set (map messageId (filter (isOld (cutoffTime now daysOld)) (messages db))))
                 (reactions db),
             messages := filter (\<lambda>m. \<not> isOld (cutoffTime now daysOld) m) (messages db)\<rparr>)"
  by (simp add: cleanupOldMessages_def deleteMessagesWhere_def Let_def list_ex_iff)

lemma cleanup_noOrphans:
  assumes "noOrphans db" and "cleanupOldMessages now daysOld db = Inr (n, db')"
  shows "noOrphans db'"
proof -
  let ?old = "isOld (cutoffTime now daysOld)"
  from assms(2) have
    m: "messages db' = filter (\<lambda>m. \<not> ?old m) (messages db)" and
    r: "reactions db' = filter (\<lambda>r. message_id r
          \<notin> set (map messageId (filter ?old (messages db)))) (reactions db)"
    unfolding cleanup_result by auto
  have "message_id x \<in> set (map messageId (messages db'))" if "x \<in> set (reactions db')" for x
  proof -
    from that r have x: "x \<in> set (reactions db)"
      "message_id x \<notin> set (map messageId (filter ?old (messages db)))" by auto
    with assms(1) obtain y where y: "y \<in> set (messages db)" "messageId y = message_id x"
      unfolding noOrphans_iff by auto
    with x have "\<not> ?old y" by force
    with y show ?thesis unfolding m by force
  qed
  then show ?thesis unfolding noOrphans_iff by auto
qed

lemma mark_ids:
  "map messageId (messages (snd (markAsReverted k db))) = map messageId (messages db)"
  by (simp add: markAsReverted_def Let_def)

lemma mark_reactions: "reactions (snd (markAsReverted k db)) = reactions db"
  by (simp add: markAsReverted_def Let_def)

lemma step_distinct:
  assumes "distinct (map messageId (messages db))"
  shows "distinct (map messageId (messages (step db op)))"
proof (cases op)
  case (StoreMessage m)
  with assms show ?thesis by (auto simp: storeMessage_def distinct_map_filter)
next
  case (MarkAsReverted k)
  with assms show ?thesis by (simp add: mark_ids)
next
  case (DeleteMessage k)
  with assms show ?thesis
    by (auto simp: deleteMessage_def deleteMessagesWhere_def Let_def distinct_map_filter
          split: sum.splits if_splits)
next
  case (StoreReaction r)
  with assms show ?thesis
    by (auto simp: storeReaction_def Let_def split: sum.splits option.splits if_splits)
next
  case (CleanupOldMessages now d)
  with assms show ?thesis by (simp add: cleanup_result distinct_map_filter)
qed

lemma step_foreign_keys: "foreign_keys (step db op) = foreign_keys db"
  by (cases op)
     (auto simp: storeMessage_def markAsReverted_def Let_def deleteMessage_def
        deleteMessagesWhere_def storeReaction_def cleanup_result
        split: sum.splits option.splits if_splits)

lemma step_noOrphans:
  assumes "foreign_keys db" "noOrphans db"
  shows "noOrphans (step db op)"
proof (cases op)
  case (StoreMessage m)
  have "set (map messageId (messages db)) \<subseteq> set (map messageId (messages (storeMessage m db)))"
    by (auto simp: storeMessage_def)
  with assms StoreMessage show ?thesis by (auto simp: noOrphans_iff storeMessage_def)
next
  case (MarkAsReverted k)
  with assms show ?thesis
    by (simp add: noOrphans_iff mark_ids mark_reactions del: set_map)
next
  case (DeleteMessage k)
  show ?thesis
  proof (cases "deleteMessage k db")
    case (Inl e)
    with DeleteMessage assms show ?thesis by simp
  next
    case (Inr res)
    then have unreferenced: "\<not> list_ex (\<lambda>r. message_id r
          \<in> set (map messageId (filter (\<lambda>m. messageId m = k) (messages db)))) (reactions db)"
      and after: "step db op = db\<lparr>messages := filter (\<lambda>m. messageId m \<noteq> k) (messages db)\<rparr>"
      using assms(1) DeleteMessage
      by (auto simp: deleteMessage_def deleteMessagesWhere_def Let_def
            split: sum.splits if_splits)
    have "message_id r \<in> set (map messageId (filter (\<lambda>m. messageId m \<noteq> k) (messages db)))"
      if "r \<in> set (reactions db)" for r
    proof -
      from that assms(2) obtain m where m: "m \<in> set (messages db)" "messageId m = message_id r"
        unfolding noOrphans_iff by auto
      from unreferenced that m have "messageId m \<noteq> k"
        unfolding list_ex_iff by force
      with m show ?thesis by force
    qed
    then show ?thesis unfolding noOrphans_iff after by auto
  qed
next
  case (StoreReaction r)
  with assms show ?thesis
    by (auto simp: noOrphans_iff storeReaction_def Let_def hasMessage_iff
          split: sum.splits option.splits if_splits)
next
  case (CleanupOldMessages now d)
  with assms(2) show ?thesis
    using cleanup_noOrphans [OF _ cleanup_result, of db now d] by (simp add: cleanup_result)
qed

text \<open>
  Every ledger reached from the empty one has distinct message ids (the primary
  key) and, the foreign key being enforced, no orphaned reaction.
\<close>

lemma reachable_invariants:
  "distinct (map messageId (messages (run ops newMessageDatabase)))
   \<and> foreign_keys (run ops newMessageDatabase)
   \<and> noOrphans (run ops newMessageDatabase)"
proof (induction ops rule: rev_induct)
  case Nil
  then show ?case by (simp add: run_def newMessageDatabase_def noOrphans_def)
next
  case (snoc op ops)
  then show ?case
    by (simp add: run_def step_distinct step_foreign_keys step_noOrphans)
qed

text \<open>
  C6: \<^verbatim>\<open>cleanupOldMessages\<close> never fails and returns the number of messages created
  before the cutoff, all of which it removes; it removes every reaction that
  references one of them, so that \<^verbatim>\<open>getReactions\<close> of a removed message is empty and no
  remaining reaction references a removed message; messages not older than the
  cutoff are kept as they are, and so are the reactions of every id that was not
  removed (with distinct message ids: of every kept message); a ledger without
  orphaned reactions (every reachable one) has none afterwards.
\<close>

theorem cleanupOldMessages_cascade:
  "case cleanupOldMessages now daysOld db of
     Inl e \<Rightarrow> False
   | Inr (n, db') \<Rightarrow>
       n = length (filter (isOld (cutoffTime now daysOld)) (messages db))
     \<and> messages db' = filter (\<lambda>m. \<not> isOld (cutoffTime now daysOld) m) (messages db)
     \<and> list_all (\<lambda>m. isOld (cutoffTime now daysOld) m \<longrightarrow> getReactions (messageId m) db' = [])
          (messages db)
     \<and> list_all (\<lambda>r. message_id r
            \<notin> set (map messageId (filter (isOld (cutoffTime now daysOld)) (messages db))))
          (reactions db')
     \<and> (k \<notin> set (map messageId (filter (isOld (cutoffTime now daysOld)) (messages db)))
          \<longrightarrow> getReactions k db' = getReactions k db)
     \<and> (distinct (map messageId (messages db))
          \<longrightarrow> list_all (\<lambda>m. getReactions (messageId m) db' = getReactions (messageId m) db)
                (messages db'))
     \<and> (noOrphans db \<longrightarrow> noOrphans db')"
proof -
  let ?old = "isOld (cutoffTime now daysOld)"
  let ?purged = "set (map messageId (filter ?old (messages db)))"
  define db' where
    "db' = db\<lparr>reactions := filter (\<lambda>r. message_id r \<notin> ?purged) (reactions db),
              messages := filter (\<lambda>m. \<not> ?old m) (messages db)\<rparr>"
  have res: "cleanupOldMessages now daysOld db = Inr (length (filter ?old (messages db)), db')"
    unfolding db'_def by (rule cleanup_result)
  have m: "messages db' = filter (\<lambda>m. \<not> ?old m) (messages db)"
    and r: "reactions db' = filter (\<lambda>r. message_id r \<notin> ?purged) (reactions db)"
    by (simp_all add: db'_def)
  have a: "list_all (\<lambda>m. ?old m \<longrightarrow> getReactions (messageId m) db' = []) (messages db)"
    unfolding list_all_iff getReactions_Nil_iff r by force
  have b: "list_all (\<lambda>r. message_id r \<notin> ?purged) (reactions db')"
    by (simp add: list_all_iff r)
  have c: "getReactions k db' = getReactions k db" if "k \<notin> ?purged" for k
  proof -
    have "filter (\<lambda>r. message_id r = k) (reactions db')
        = filter (\<lambda>r. message_id r = k) (reactions db)"
      unfolding r using that by (auto intro: filter_cong)
    then show ?thesis by (simp add: getReactions_def)
  qed
  have d: "list_all (\<lambda>m. getReactions (messageId m) db' = getReactions (messageId m) db)
             (messages db')"
    if ids: "distinct (map messageId (messages db))"
  proof -
    have "messageId x \<notin> ?purged" if x: "x \<in> set (messages db)" "\<not> ?old x" for x
    proof
      assume "messageId x \<in> ?purged"
      then obtain y where y: "y \<in> set (messages db)" "?old y" "messageId y = messageId x"
        by auto
      with x ids have "y = x"
        by (auto simp: distinct_map inj_on_def)
      with y x show False by simp
    qed
    then show ?thesis by (auto simp: list_all_iff m intro: c)
  qed
  have e: "noOrphans db'" if "noOrphans db"
    using that res by (rule cleanup_noOrphans)
  show ?thesis
    unfolding res using m a b c d e by simp
qed

theorem cleanupOldMessages_cascade_witness:
  "cleanupOldMessages 3000000000 30
      (run [StoreMessage (exampleMessage ''old'' ''u1'' ''bot1'' 0),
            StoreMessage (exampleMessage ''new'' ''u1'' ''bot2'' 2999999999),
            StoreReaction (exampleReaction ''old'' ''u2'' 10),
            StoreReaction (exampleReaction ''old'' ''u1'' 20),
            StoreReaction (exampleReaction ''new'' ''u3'' 2999999999)] newMessageDatabase)
   = Inr (1,
      run [StoreMessage (exampleMessage ''new'' ''u1'' ''bot2'' 2999999999),
           StoreReaction (exampleReaction ''new'' ''u3'' 2999999999)]
        (newMessageDatabase\<lparr>sqlite_sequence := 2\<rparr>))
   \<and> getReactions ''old''
        (run [StoreMessage (exampleMessage ''new'' ''u1'' ''bot2'' 2999999999),
           StoreReaction (exampleReaction ''new'' ''u3'' 2999999999)]
        (newMessageDatabase\<lparr>sqlite_sequence := 2\<rparr>)) = []
   \<and> map user_id (getReactions ''new''
        (run [StoreMessage (exampleMessage ''new'' ''u1'' ''bot2'' 2999999999),
           StoreReaction (exampleReaction ''new'' ''u3'' 2999999999)]
        (newMessageDatabase\<lparr>sqlite_sequence := 2\<rparr>))) = [''u3'']
   \<and> noOrphans
        (run [StoreMessage (exampleMessage ''new'' ''u1'' ''bot2'' 2999999999),
           StoreReaction (exampleReaction ''new'' ''u3'' 2999999999)]
        (newMessageDatabase\<lparr>sqlite_sequence := 2\<rparr>))"
proof -
  define db0 where "db0 =
    run [StoreMessage (exampleMessage ''old'' ''u1'' ''bot1'' 0),
         StoreMessage (exampleMessage ''new'' ''u1'' ''bot2'' 2999999999),
         StoreReaction (exampleReaction ''old'' ''u2'' 10),
         StoreReaction (exampleReaction ''old'' ''u1'' 20),
         StoreReaction (exampleReaction ''new'' ''u3'' 2999999999)] newMessageDatabase"
  define db1 where "db1 =
    run [StoreMessage (exampleMessage ''new'' ''u1'' ''bot2'' 2999999999),
         StoreReaction (exampleReaction ''new'' ''u3'' 2999999999)]
      (newMessageDatabase\<lparr>sqlite_sequence := 2\<rparr>)"
  define old where "old = exampleMessage ''old'' ''u1'' ''bot1'' 0"
  have result: "cleanupOldMessages 3000000000 30 db0 = Inr (1, db1)"
    unfolding db0_def db1_def by code_simp
  have before: "noOrphans db0" "old \<in> set (messages db0)"
    "isOld (cutoffTime 3000000000 30) old" "messageId old = ''old''"
    unfolding db0_def old_def by code_simp+
  have kept: "map user_id (getReactions ''new'' db1) = [''u3'']"
    unfolding db1_def by code_simp
  from cleanupOldMessages_cascade [of 3000000000 30 db0 "''new''"]
  have "list_all (\<lambda>m. isOld (cutoffTime 3000000000 30) m \<longrightarrow> getReactions (messageId m) db1 = [])
          (messages db0)"
    and "noOrphans db1"
    by (simp_all add: result before)
  with before have "getReactions ''old'' db1 = []" "noOrphans db1"
    by (auto simp: list_all_iff)
  with result kept show ?thesis
    unfolding db0_def db1_def by simp
qed

subsection \<open>Storing a reaction\<close>

lemma storeReaction_refused:
  "foreign_keys db \<and> \<not> hasMessage (reactionMessageId reaction) db
    \<Longrightarrow> storeReaction reaction db = Inl ConstraintError"
  by (simp add: storeReaction_def split: option.splits)

text \<open>
  C9 (the claim as stated fails): with the foreign key of \<^verbatim>\<open>reactions\<close> enforced, a
  reaction for a message id that is not stored (never stored, or purged) is refused.
\<close>

theorem storeReaction_unknown_message:
  "storeReaction (exampleReaction ''m1'' ''u1'' 1000) newMessageDatabase = Inl ConstraintError"
  by (simp add: storeReaction_def exampleReaction_def newMessageDatabase_def hasMessage_def)

text \<open>
  C9 (amended): whenever the referenced message is stored (reverted or not) or
  foreign keys are not enforced, \<^verbatim>\<open>storeReaction\<close>, for an input that carries the
  reactor's id, returns the next id and appends exactly one row holding the input's
  values; the rows already there, the messages and their reverted flags are left as
  they were. With the foreign key enforced, as it is in every ledger the class opens, a
  reaction for a message id that is not stored is refused with a constraint error and
  the ledger stays as it was: so it is for an id that was never stored, for the id of a
  message that \<^verbatim>\<open>deleteMessage\<close> has deleted, and for the id of a message that
  \<^verbatim>\<open>cleanupOldMessages\<close> has purged.
\<close>

theorem storeReaction_appends:
  "(odId reaction = Some reactor
      \<and> (hasMessage (reactionMessageId reaction) db \<or> foreign_keys db = False)
    \<longrightarrow> storeReaction reaction db =
           Inr (Suc (sqlite_sequence db),
                db\<lparr>reactions := reactions db @
                      [\<lparr>reaction_id = Suc (sqlite_sequence db),
                        message_id = reactionMessageId reaction,
                        user_id = reactor,
                        user_tag = userTag reaction,
                        emoji_col = emoji reaction,
                        reacted_at = reactedAt reaction,
                        is_revert_reaction = isRevertReaction reaction\<rparr>],
                   sqlite_sequence := Suc (sqlite_sequence db)\<rparr>))
   \<and> (foreign_keys db \<and> \<not> hasMessage (reactionMessageId reaction) db
    \<longrightarrow> storeReaction reaction db = Inl ConstraintError
        \<and> step db (StoreReaction reaction) = db)
   \<and> (foreign_keys db \<and> deleteMessage (reactionMessageId reaction) db = Inr (deleted, db1)
    \<longrightarrow> storeReaction reaction db1 = Inl ConstraintError
        \<and> step db1 (StoreReaction reaction) = db1)
   \<and> (foreign_keys db \<and> cleanupOldMessages now daysOld db = Inr (n, db2)
      \<and> list_all (\<lambda>m. messageId m = reactionMessageId reaction
                     \<longrightarrow> isOld (cutoffTime now daysOld) m) (messages db)
    \<longrightarrow> storeReaction reaction db2 = Inl ConstraintError
        \<and> step db2 (StoreReaction reaction) = db2)"
proof (intro conjI impI)
  assume "odId reaction = Some reactor
    \<and> (hasMessage (reactionMessageId reaction) db \<or> foreign_keys db = False)"
  then show "storeReaction reaction db =
           Inr (Suc (sqlite_sequence db),
                db\<lparr>reactions := reactions db @
                      [\<lparr>reaction_id = Suc (sqlite_sequence db),
                        message_id = reactionMessageId reaction,
                        user_id = reactor,
                        user_tag = userTag reaction,
                        emoji_col = emoji reaction,
                        reacted_at = reactedAt reaction,
                        is_revert_reaction = isRevertReaction reaction\<rparr>],
                   sqlite_sequence := Suc (sqlite_sequence db)\<rparr>)"
    by (auto simp: storeReaction_def Let_def)
next
  assume a: "foreign_keys db \<and> \<not> hasMessage (reactionMessageId reaction) db"
  then show "storeReaction reaction db = Inl ConstraintError"
    by (rule storeReaction_refused)
  with a show "step db (StoreReaction reaction) = db" by simp
next
  assume a: "foreign_keys db \<and> deleteMessage (reactionMessageId reaction) db = Inr (deleted, db1)"
  then have "foreign_keys db1 \<and> \<not> hasMessage (reactionMessageId reaction) db1"
    by (auto simp: deleteMessage_def deleteMessagesWhere_def Let_def hasMessage_iff
          split: sum.splits if_splits)
  then show "storeReaction reaction db1 = Inl ConstraintError"
    by (rule storeReaction_refused)
  then show "step db1 (StoreReaction reaction) = db1" by simp
next
  assume a: "foreign_keys db \<and> cleanupOldMessages now daysOld db = Inr (n, db2)
      \<and> list_all (\<lambda>m. messageId m = reactionMessageId reaction
                     \<longrightarrow> isOld (cutoffTime now daysOld) m) (messages db)"
  then have "foreign_keys db2 \<and> \<not> hasMessage (reactionMessageId reaction) db2"
    unfolding cleanup_result by (auto simp: hasMessage_iff list_all_iff)
  then show "storeReaction reaction db2 = Inl ConstraintError"
    by (rule storeReaction_refused)
  then show "step db2 (StoreReaction reaction) = db2" by simp
qed

theorem storeReaction_appends_witness:
  "storeReaction (exampleReaction ''m1'' ''u2'' 1000) (snd (markAsReverted ''m1'' exampleLedger))
     = Inr (1, (snd (markAsReverted ''m1'' exampleLedger))
                 \<lparr>reactions := [\<lparr>reaction_id = 1, message_id = ''m1'', user_id = ''u2'',
                     user_tag = ''User#0001'', emoji_col = ROBOT_EMOJI, reacted_at = 1000,
                     is_revert_reaction = False\<rparr>],
                  sqlite_sequence := 1\<rparr>)
   \<and> storeReaction (exampleReaction ''m2'' ''u2'' 1000) (snd (markAsReverted ''m1'' exampleLedger))
     = Inl ConstraintError
   \<and> deleteMessage ''m1'' (snd (markAsReverted ''m1'' exampleLedger))
     = Inr (True, newMessageDatabase)
   \<and> cleanupOldMessages 8640000000 1 (snd (markAsReverted ''m1'' exampleLedger))
     = Inr (1, newMessageDatabase)
   \<and> storeReaction (exampleReaction ''m1'' ''u2'' 1000) newMessageDatabase
     = Inl ConstraintError"
  using storeReaction_appends [where reaction = "exampleReaction ''m1'' ''u2'' 1000"
      and reactor = "''u2''" and db = "snd (markAsReverted ''m1'' exampleLedger)"
      and deleted = True and ?db1.0 = newMessageDatabase and now = 8640000000
      and daysOld = 1 and n = 1 and ?db2.0 = newMessageDatabase]
    storeReaction_appends [where reaction = "exampleReaction ''m2'' ''u2'' 1000"
      and reactor = "''u2''" and db = "snd (markAsReverted ''m1'' exampleLedger)"
      and deleted = True and ?db1.0 = newMessageDatabase and now = 8640000000
      and daysOld = 1 and n = 1 and ?db2.0 = newMessageDatabase]
  by (simp add: exampleLedger_def exampleReaction_def exampleMessage_def hasMessage_def
        markAsReverted_def storeMessage_def newMessageDatabase_def deleteMessage_def
        deleteMessagesWhere_def cleanup_result cutoffTime_def isOld_def Let_def)

section \<open>Properties of the link utilities\<close>

subsection \<open>Auxiliary facts\<close>

lemma scan_Nil: "rmatch r [] Some = None \<Longrightarrow> scan r [] = []"
  by simp

lemma scan_skip: "rmatch r (c # cs) Some = None \<Longrightarrow> scan r (c # cs) = Unmatched c # scan r cs"
  by simp

lemma scan_match:
  "rmatch r s Some = Some rest \<Longrightarrow> length rest < length s \<Longrightarrow>
   scan r s = Matched (take (length s - length rest) s) # scan r rest"
  by simp

declare scan.simps [simp del]

lemmas link_eval =
  js_def isWhiteSpace_def canonicalize_def hostPattern1_def hostPattern2_def redditPattern1_def redditPattern2_def REDDIT_PATTERNS_def
  detectRedditLinks_def convertToRxddit_def convertMessageLinks_def stringMatch_def
  stringReplace_def newSet_def setAdd_def scan_Nil scan_skip scan_match

lemma firstSome_append:
  "firstSome f (xs @ ys) = (case firstSome f xs of Some y \<Rightarrow> Some y | None \<Rightarrow> firstSome f ys)"
  by (induction xs) (auto split: option.splits)

lemma firstSome_map: "firstSome f (map g xs) = firstSome (\<lambda>x. f (g x)) xs"
  by (induction xs) (auto split: option.splits)

lemma firstSome_None_iff: "(firstSome f xs = None) = (\<forall>x \<in> set xs. f x = None)"
  by (induction xs) (auto split: option.splits)

lemma firstSome_SomeD: "firstSome f xs = Some y \<Longrightarrow> \<exists>x \<in> set xs. f x = Some y"
  by (induction xs) (auto split: option.splits)

lemma matchLit_append:
  "matchLit (p @ q) s = (case matchLit p s of None \<Rightarrow> None | Some rest \<Rightarrow> matchLit q rest)"
  by (induction p s rule: matchLit.induct) auto

lemma matchLit_eq:
  "matchLit p s =
     (if length p \<le> length s \<and> map canonicalize (take (length p) s) = map canonicalize p
      then Some (drop (length p) s) else None)"
  by (induction p s rule: matchLit.induct) auto

lemma rmatch_expand:
  "literal r \<Longrightarrow>
   rmatch r s k = firstSome (\<lambda>p. case matchLit p s of None \<Rightarrow> None | Some rest \<Rightarrow> k rest) (expand r)"
proof (induction r arbitrary: s k)
  case (Lit p)
  then show ?case by (simp split: option.splits)
next
  case (Opt r)
  then show ?case by (simp add: firstSome_append split: option.splits)
next
  case (Alt a b)
  then show ?case by (simp add: firstSome_append split: option.splits)
next
  case (Seq a b)
  have inner: "firstSome (\<lambda>p. case matchLit p s of None \<Rightarrow> None | Some rest \<Rightarrow> k rest)
                 (concat (map (\<lambda>p. map (\<lambda>q. p @ q) qs) ps))
             = firstSome (\<lambda>p. case matchLit p s of None \<Rightarrow> None
                  | Some rest \<Rightarrow> firstSome (\<lambda>q. case matchLit q rest of None \<Rightarrow> None
                       | Some rest' \<Rightarrow> k rest') qs) ps" for ps qs
  proof (induction ps)
    case Nil
    then show ?case by simp
  next
    case (Cons p ps)
    have "firstSome (\<lambda>x. case matchLit (p @ x) s of None \<Rightarrow> None | Some rest \<Rightarrow> k rest) qs
        = (case matchLit p s of None \<Rightarrow> None
           | Some rest \<Rightarrow> firstSome (\<lambda>q. case matchLit q rest of None \<Rightarrow> None
                | Some rest' \<Rightarrow> k rest') qs)"
      by (induction qs) (auto simp: matchLit_append split: option.splits)
    with Cons show ?case
      by (simp add: firstSome_append firstSome_map split: option.splits)
  qed
  from Seq show ?case by (simp add: inner)
next
  case NotSpacePlus
  then show ?case by simp
qed

lemma backtrack_Some: "backtrack Some s n = (if n = 0 then None else Some (drop n s))"
  by (cases n) auto

lemma backtrack_SomeD:
  "backtrack k s n = Some y \<Longrightarrow> \<exists>j. 0 < j \<and> j \<le> n \<and> k (drop j s) = Some y"
proof (induction n)
  case 0
  then show ?case by simp
next
  case (Suc n)
  show ?case
  proof (cases "k (drop (Suc n) s)")
    case None
    with Suc obtain j where "0 < j" "j \<le> n" "k (drop j s) = Some y" by auto
    then show ?thesis by (intro exI [of _ j]) simp
  next
    case (Some r)
    with Suc.prems show ?thesis by (intro exI [of _ "Suc n"]) simp
  qed
qed

lemma matchLit_SomeD: "matchLit p s = Some rest \<Longrightarrow> \<exists>m. s = m @ rest"
  by (auto simp: matchLit_eq split: if_splits intro: exI [of _ "take (length p) s"])

lemma rmatch_SomeD:
  "rmatch r s k = Some y \<Longrightarrow> \<exists>m rest. s = m @ rest \<and> k rest = Some y"
proof (induction r arbitrary: s k y)
  case (Lit p)
  then obtain x where x: "matchLit p s = Some x" "k x = Some y"
    by (auto split: option.splits)
  from matchLit_SomeD [OF x(1)] obtain m where "s = m @ x" ..
  with x show ?case by blast
next
  case (Opt r)
  show ?case
  proof (cases "rmatch r s k")
    case None
    with Opt.prems have "k s = Some y" by simp
    then show ?thesis by (intro exI [of _ "[]"] exI [of _ s]) simp
  next
    case (Some x)
    with Opt.prems have "rmatch r s k = Some y" by simp
    then show ?thesis by (rule Opt.IH)
  qed
next
  case (Alt a b)
  then show ?case by (cases "rmatch a s k") auto
next
  case (Seq a b)
  from Seq.prems have "rmatch a s (\<lambda>rest. rmatch b rest k) = Some y" by simp
  from Seq.IH(1) [OF this] obtain m1 r1 where 1: "s = m1 @ r1" "rmatch b r1 k = Some y" by auto
  from Seq.IH(2) [OF 1(2)] obtain m2 r2 where "r1 = m2 @ r2" "k r2 = Some y" by auto
  with 1 show ?case by (intro exI [of _ "m1 @ m2"] exI [of _ r2]) simp
next
  case NotSpacePlus
  then obtain j where "k (drop j s) = Some y" by (auto dest: backtrack_SomeD)
  then show ?case by (intro exI [of _ "take j s"] exI [of _ "drop j s"]) simp
qed

lemma rmatch_Some_suffix: "rmatch r s Some = Some rest \<Longrightarrow> \<exists>m. s = m @ rest"
  by (drule rmatch_SomeD) auto

lemma scan_empty:
  "rmatch r s Some = Some rest \<Longrightarrow> \<not> length rest < length s \<Longrightarrow>
   scan r s = Matched [] # (case s of [] \<Rightarrow> [] | c # cs \<Rightarrow> Unmatched c # scan r cs)"
  by (simp add: scan.simps [of r s])

lemma scan_match_append:
  "rmatch r (m @ rest) Some = Some rest \<Longrightarrow> m \<noteq> [] \<Longrightarrow>
   scan r (m @ rest) = Matched m # scan r rest"
  by (simp add: scan_match)

lemma replacePieces_id_scan: "replacePieces (\<lambda>m. m) (scan r s) = s"
proof (induction r s rule: scan.induct)
  case (1 r s)
  show ?case
  proof (cases "rmatch r s Some")
    case None
    show ?thesis
    proof (cases s)
      case Nil
      with None show ?thesis by (simp add: scan_Nil)
    next
      case (Cons c cs)
      with None 1(1) show ?thesis by (simp add: scan_skip)
    qed
  next
    case (Some rest)
    show ?thesis
    proof (cases "length rest < length s")
      case True
      with Some 1 have "replacePieces (\<lambda>m. m) (scan r rest) = rest" by simp
      moreover from Some obtain m where "s = m @ rest" by (auto dest: rmatch_Some_suffix)
      ultimately show ?thesis using Some True by (simp add: scan_match)
    next
      case False
      show ?thesis
      proof (cases s)
        case Nil
        with Some False show ?thesis by (simp add: scan_empty)
      next
        case (Cons c cs)
        with Some False 1(3) show ?thesis by (simp add: scan_empty)
      qed
    qed
  qed
qed

lemma replacePieces_no_match:
  "matchedTexts ps = [] \<Longrightarrow> replacePieces f ps = replacePieces (\<lambda>m. m) ps"
  by (induction ps rule: matchedTexts.induct) auto

lemma stringReplace_no_match: "stringMatch r s = [] \<Longrightarrow> stringReplace r f s = s"
  by (simp add: stringMatch_def stringReplace_def replacePieces_no_match replacePieces_id_scan)

lemma scan_append_unmatched:
  "(\<And>i. i < length x \<Longrightarrow> rmatch r (drop i x @ ctx) Some = None) \<Longrightarrow>
   scan r (x @ ctx) = map Unmatched x @ scan r ctx"
proof (induction x)
  case Nil
  then show ?case by simp
next
  case (Cons c cs)
  from Cons.prems [of 0] have "rmatch r (c # cs @ ctx) Some = None" by simp
  moreover have "scan r (cs @ ctx) = map Unmatched cs @ scan r ctx"
  proof (rule Cons.IH)
    fix i assume "i < length cs"
    with Cons.prems [of "Suc i"] show "rmatch r (drop i cs @ ctx) Some = None" by simp
  qed
  ultimately show ?case by (simp add: scan_skip)
qed

lemma no_match_everywhere:
  "stringMatch r x = [] \<Longrightarrow> i \<le> length x \<Longrightarrow> rmatch r (drop i x) Some = None"
proof (induction x arbitrary: i)
  case Nil
  then show ?case
    by (cases "rmatch r [] Some") (auto simp: stringMatch_def scan.simps [of r "[]"])
next
  case (Cons c cs)
  have here: "rmatch r (c # cs) Some = None"
  proof (cases "rmatch r (c # cs) Some")
    case None
    then show ?thesis .
  next
    case (Some rest)
    with Cons.prems(1) show ?thesis
      by (cases "length rest < length (c # cs)")
         (simp_all add: stringMatch_def scan_match scan_empty del: length_Cons)
  qed
  show ?case
  proof (cases i)
    case 0
    with here show ?thesis by simp
  next
    case (Suc j)
    from here Cons.prems(1) have "stringMatch r cs = []"
      by (simp add: stringMatch_def scan_skip)
    with Cons.IH [of j] Cons.prems(2) Suc show ?thesis by simp
  qed
qed

lemma canon_numerals:
  "canonicalize 104 = 72" "canonicalize 116 = 84" "canonicalize 112 = 80"
  "canonicalize 115 = 83" "canonicalize 58 = 58" "canonicalize 47 = 47"
  "canonicalize 119 = 87" "canonicalize 46 = 46" "canonicalize 114 = 82"
  "canonicalize 101 = 69" "canonicalize 100 = 68" "canonicalize 105 = 73"
  "canonicalize 99 = 67" "canonicalize 111 = 79" "canonicalize 109 = 77"
  "canonicalize 108 = 76" "canonicalize 110 = 78" "canonicalize 120 = 88"
  by (simp_all add: canonicalize_def)

lemma literal_hosts: "literal hostPattern1" "literal hostPattern2"
  by (simp_all add: hostPattern1_def hostPattern2_def)

lemma expand_host1:
  "expand hostPattern1 =
     [js ''https://www.reddit.com'', js ''https://reddit.com'',
      js ''http://www.reddit.com'', js ''http://reddit.com'']"
  by (simp add: hostPattern1_def js_def)

lemma expand_host2:
  "expand hostPattern2 =
     [js ''https://old.reddit.com'', js ''https://new.reddit.com'',
      js ''http://old.reddit.com'', js ''http://new.reddit.com'']"
  by (simp add: hostPattern2_def js_def)

lemma rmatch_host:
  "rmatch hostPattern1 s k =
     firstSome (\<lambda>p. case matchLit p s of None \<Rightarrow> None | Some rest \<Rightarrow> k rest) (expand hostPattern1)"
  "rmatch hostPattern2 s k =
     firstSome (\<lambda>p. case matchLit p s of None \<Rightarrow> None | Some rest \<Rightarrow> k rest) (expand hostPattern2)"
  by (simp_all only: rmatch_expand literal_hosts)

lemma matchLit_same_length:
  "length h = length q \<Longrightarrow>
   matchLit q (h @ rest) = (if map canonicalize h = map canonicalize q then Some rest else None)"
  by (simp add: matchLit_eq)

lemma matchLit_prefix:
  "matchLit q (h @ rest) =
     (if length q \<le> length h
      then (if take (length q) (map canonicalize h) = map canonicalize q
            then Some (drop (length q) h @ rest) else None)
      else (if take (length h) (map canonicalize q) = map canonicalize h
            then matchLit (drop (length h) q) rest else None))"
proof (cases "length q \<le> length h")
  case True
  then show ?thesis by (simp add: matchLit_eq take_map)
next
  case False
  have "matchLit q (h @ rest) = matchLit (take (length h) q @ drop (length h) q) (h @ rest)"
    by simp
  also have "\<dots> = (case matchLit (take (length h) q) (h @ rest) of None \<Rightarrow> None
      | Some r \<Rightarrow> matchLit (drop (length h) q) r)"
    by (rule matchLit_append)
  also have "matchLit (take (length h) q) (h @ rest)
      = (if map canonicalize h = map canonicalize (take (length h) q) then Some rest else None)"
    using False by (intro matchLit_same_length) simp
  finally show ?thesis using False by (auto simp: take_map)
qed

lemma matchLit_known_prefix:
  assumes "map canonicalize h = C"
  shows "matchLit q (h @ rest) =
     (if length q \<le> length C
      then (if take (length q) C = map canonicalize q
            then Some (drop (length q) h @ rest) else None)
      else (if take (length C) (map canonicalize q) = C
            then matchLit (drop (length C) q) rest else None))"
proof -
  from assms have "length C = length h" by auto
  then show ?thesis unfolding assms [symmetric] by (simp only: matchLit_prefix)
qed

lemma js_forms:
  "map canonicalize (js ''https://www.reddit.com'') = [72,84,84,80,83,58,47,47,87,87,87,46,82,69,68,68,73,84,46,67,79,77]"
  "map canonicalize (js ''https://reddit.com'') = [72,84,84,80,83,58,47,47,82,69,68,68,73,84,46,67,79,77]"
  "map canonicalize (js ''http://www.reddit.com'') = [72,84,84,80,58,47,47,87,87,87,46,82,69,68,68,73,84,46,67,79,77]"
  "map canonicalize (js ''http://reddit.com'') = [72,84,84,80,58,47,47,82,69,68,68,73,84,46,67,79,77]"
  "map canonicalize (js ''https://old.reddit.com'') = [72,84,84,80,83,58,47,47,79,76,68,46,82,69,68,68,73,84,46,67,79,77]"
  "map canonicalize (js ''https://new.reddit.com'') = [72,84,84,80,83,58,47,47,78,69,87,46,82,69,68,68,73,84,46,67,79,77]"
  "map canonicalize (js ''http://old.reddit.com'') = [72,84,84,80,58,47,47,79,76,68,46,82,69,68,68,73,84,46,67,79,77]"
  "map canonicalize (js ''http://new.reddit.com'') = [72,84,84,80,58,47,47,78,69,87,46,82,69,68,68,73,84,46,67,79,77]"
  "map canonicalize (js ''https://rxddit.com'') = [72,84,84,80,83,58,47,47,82,88,68,68,73,84,46,67,79,77]"
  by (simp_all add: js_def canonicalize_def)

lemma js_lengths:
  "length (js ''https://www.reddit.com'') = 22" "length (js ''https://reddit.com'') = 18"
  "length (js ''http://www.reddit.com'') = 21" "length (js ''http://reddit.com'') = 17"
  "length (js ''https://old.reddit.com'') = 22" "length (js ''https://new.reddit.com'') = 22"
  "length (js ''http://old.reddit.com'') = 21" "length (js ''http://new.reddit.com'') = 21"
  "length (js ''https://rxddit.com'') = 18"
  by (simp_all add: js_def)

lemma isForm1_cases:
  assumes "isForm hostPattern1 h"
  obtains
      "map canonicalize h = [72,84,84,80,83,58,47,47,87,87,87,46,82,69,68,68,73,84,46,67,79,77]"
    | "map canonicalize h = [72,84,84,80,83,58,47,47,82,69,68,68,73,84,46,67,79,77]"
    | "map canonicalize h = [72,84,84,80,58,47,47,87,87,87,46,82,69,68,68,73,84,46,67,79,77]"
    | "map canonicalize h = [72,84,84,80,58,47,47,82,69,68,68,73,84,46,67,79,77]"
  using assms unfolding isForm_def expand_host1 by (auto simp: js_forms)

lemma isForm2_cases:
  assumes "isForm hostPattern2 h"
  obtains
      "map canonicalize h = [72,84,84,80,83,58,47,47,79,76,68,46,82,69,68,68,73,84,46,67,79,77]"
    | "map canonicalize h = [72,84,84,80,83,58,47,47,78,69,87,46,82,69,68,68,73,84,46,67,79,77]"
    | "map canonicalize h = [72,84,84,80,58,47,47,79,76,68,46,82,69,68,68,73,84,46,67,79,77]"
    | "map canonicalize h = [72,84,84,80,58,47,47,78,69,87,46,82,69,68,68,73,84,46,67,79,77]"
  using assms unfolding isForm_def expand_host2 by (auto simp: js_forms)

lemma known_length: "map f h = C \<Longrightarrow> length h = length C"
  by auto

lemmas host_eval =
  rmatch_host expand_host1 expand_host2 js_forms js_lengths

lemma host1_form:
  assumes "isForm hostPattern1 h"
  shows "rmatch hostPattern1 (h @ rest) k = k rest \<and> rmatch hostPattern2 (h @ rest) k = None"
  using assms
proof (cases rule: isForm1_cases)
  case 1
  from known_length [OF 1] have "length h = 22" by simp
  then show ?thesis
    by (cases "k rest") (simp_all add: host_eval matchLit_known_prefix [OF 1])
next
  case 2
  from known_length [OF 2] have "length h = 18" by simp
  then show ?thesis
    by (cases "k rest") (simp_all add: host_eval matchLit_known_prefix [OF 2])
next
  case 3
  from known_length [OF 3] have "length h = 21" by simp
  then show ?thesis
    by (cases "k rest") (simp_all add: host_eval matchLit_known_prefix [OF 3])
next
  case 4
  from known_length [OF 4] have "length h = 17" by simp
  then show ?thesis
    by (cases "k rest") (simp_all add: host_eval matchLit_known_prefix [OF 4])
qed

lemma host2_form:
  assumes "isForm hostPattern2 h"
  shows "rmatch hostPattern2 (h @ rest) k = k rest \<and> rmatch hostPattern1 (h @ rest) k = None"
  using assms
proof (cases rule: isForm2_cases)
  case 1
  from known_length [OF 1] have "length h = 22" by simp
  then show ?thesis
    by (cases "k rest") (simp_all add: host_eval matchLit_known_prefix [OF 1])
next
  case 2
  from known_length [OF 2] have "length h = 22" by simp
  then show ?thesis
    by (cases "k rest") (simp_all add: host_eval matchLit_known_prefix [OF 2])
next
  case 3
  from known_length [OF 3] have "length h = 21" by simp
  then show ?thesis
    by (cases "k rest") (simp_all add: host_eval matchLit_known_prefix [OF 3])
next
  case 4
  from known_length [OF 4] have "length h = 21" by simp
  then show ?thesis
    by (cases "k rest") (simp_all add: host_eval matchLit_known_prefix [OF 4])
qed

lemma rmatch_literal_SomeD:
  assumes "literal r" and "rmatch r s k = Some y"
  shows "\<exists>h rest. s = h @ rest \<and> isForm r h \<and> k rest = Some y"
proof -
  from assms have "firstSome (\<lambda>p. case matchLit p s of None \<Rightarrow> None | Some rest \<Rightarrow> k rest)
      (expand r) = Some y"
    by (simp add: rmatch_expand)
  then obtain p where p: "p \<in> set (expand r)"
    "(case matchLit p s of None \<Rightarrow> None | Some rest \<Rightarrow> k rest) = Some y"
    by (auto dest: firstSome_SomeD)
  then obtain rest where rest: "matchLit p s = Some rest" "k rest = Some y"
    by (auto split: option.splits)
  then have "s = take (length p) s @ rest"
    "map canonicalize (take (length p) s) = map canonicalize p"
    by (auto simp: matchLit_eq split: if_splits)
  with p(1) rest(2) show ?thesis
    unfolding isForm_def by (intro exI [of _ "take (length p) s"] exI [of _ rest]) auto
qed

lemma rmatch_literal_None:
  assumes "literal r" and "rmatch r s Some = None"
  shows "rmatch r s k = None"
proof -
  from assms have "\<forall>p \<in> set (expand r). matchLit p s = None"
    by (auto simp: rmatch_expand firstSome_None_iff split: option.splits)
  with assms(1) show ?thesis
    by (simp add: rmatch_expand firstSome_None_iff)
qed

lemma host_first_char:
  assumes "canonicalize c \<noteq> 72"
  shows "rmatch hostPattern1 (c # cs) k = None" "rmatch hostPattern2 (c # cs) k = None"
  using assms
  by (simp_all add: rmatch_host expand_host1 expand_host2 js_def canon_numerals)

lemma pattern_first_char:
  assumes "canonicalize c \<noteq> 72"
  shows "rmatch redditPattern1 (c # cs) k = None" "rmatch redditPattern2 (c # cs) k = None"
  using assms by (simp_all add: redditPattern1_def redditPattern2_def host_first_char)

lemma pattern_None_if_host_None:
  "rmatch hostPattern1 s Some = None \<Longrightarrow> rmatch redditPattern1 s k = None"
  "rmatch hostPattern2 s Some = None \<Longrightarrow> rmatch redditPattern2 s k = None"
  by (simp_all add: redditPattern1_def redditPattern2_def rmatch_literal_None literal_hosts)

lemma matchLit_extend_all:
  "matchLit q y = None \<Longrightarrow> canonicalize w \<notin> set (map canonicalize q) \<Longrightarrow>
   matchLit q (y @ w # ctx) = None"
  by (induction q y rule: matchLit.induct) (auto split: if_splits)

lemma matchLit_extend:
  assumes "matchLit q y = None" "y \<noteq> []" "canonicalize w \<notin> set (map canonicalize (tl q))"
  shows "matchLit q (y @ w # ctx) = None"
proof (cases q)
  case Nil
  with assms show ?thesis by simp
next
  case (Cons p ps)
  from assms(2) obtain c cs where y: "y = c # cs" by (cases y) auto
  show ?thesis
  proof (cases "canonicalize c = canonicalize p")
    case True
    with assms Cons y have "matchLit ps cs = None" "canonicalize w \<notin> set (map canonicalize ps)"
      by simp_all
    then have "matchLit ps (cs @ w # ctx) = None" by (rule matchLit_extend_all)
    with True Cons y show ?thesis by simp
  next
    case False
    with Cons y show ?thesis by simp
  qed
qed

lemma whitespace_canon:
  "isWhiteSpace w \<Longrightarrow> canonicalize w \<notin> {46, 47, 58} \<and> \<not> (65 \<le> canonicalize w \<and> canonicalize w \<le> 90)"
  by (auto simp: isWhiteSpace_def canonicalize_def)

lemma breaksHost_tails:
  assumes "breaksHost w" and "p \<in> set (expand hostPattern1) \<union> set (expand hostPattern2)"
  shows "canonicalize w \<notin> set (map canonicalize (tl p))"
proof -
  from assms(1) have w: "canonicalize w \<notin> {46, 47, 58, 84, 80, 83, 87, 82, 69, 68, 73, 67, 79, 77, 76, 78}"
    unfolding breaksHost_def using whitespace_canon [of w] by auto
  from assms(2) have "set (tl (map canonicalize p))
      \<subseteq> {46, 47, 58, 84, 80, 83, 87, 82, 69, 68, 73, 67, 79, 77, 76, 78}"
    by (auto simp: expand_host1 expand_host2 js_forms)
  with w show ?thesis unfolding map_tl by blast
qed

lemma host_extend:
  assumes "breaksHost w" "y \<noteq> []"
  shows "rmatch hostPattern1 y Some = None \<Longrightarrow> rmatch hostPattern1 (y @ w # ctx) k = None"
    and "rmatch hostPattern2 y Some = None \<Longrightarrow> rmatch hostPattern2 (y @ w # ctx) k = None"
proof -
  have ext: "rmatch r (y @ w # ctx) k = None"
    if "literal r" "set (expand r) \<subseteq> set (expand hostPattern1) \<union> set (expand hostPattern2)"
      "rmatch r y Some = None" for r
  proof -
    from that have none: "\<forall>p \<in> set (expand r). matchLit p y = None"
      by (auto simp: rmatch_expand firstSome_None_iff split: option.splits)
    have "matchLit p (y @ w # ctx) = None" if "p \<in> set (expand r)" for p
      using none that assms \<open>set (expand r) \<subseteq> _\<close>
      by (intro matchLit_extend breaksHost_tails) auto
    with that(1) show ?thesis by (simp add: rmatch_expand firstSome_None_iff)
  qed
  show "rmatch hostPattern1 y Some = None \<Longrightarrow> rmatch hostPattern1 (y @ w # ctx) k = None"
    by (rule ext) (auto simp: literal_hosts)
  show "rmatch hostPattern2 y Some = None \<Longrightarrow> rmatch hostPattern2 (y @ w # ctx) k = None"
    by (rule ext) (auto simp: literal_hosts)
qed

lemma slash_r_slash: "map canonicalize (js ''/r/'') = [47, 82, 47]" "length (js ''/r/'') = 3"
  by (simp_all add: js_def canonicalize_def)

lemma takeWhile_tail:
  assumes "\<forall>c \<in> set tail. \<not> isWhiteSpace c" "endOrSpace ctx"
  shows "takeWhile (\<lambda>c. \<not> isWhiteSpace c) (tail @ ctx) = tail"
proof -
  from assms(2) have "takeWhile (\<lambda>c. \<not> isWhiteSpace c) ctx = []"
    by (cases ctx) (auto simp: endOrSpace_def)
  with assms(1) show ?thesis by (simp add: takeWhile_append2)
qed

lemma path_match:
  assumes "map canonicalize r3 = [47, 82, 47]" "tail \<noteq> []"
    "\<forall>c \<in> set tail. \<not> isWhiteSpace c" "endOrSpace ctx"
  shows "rmatch (Seq (Lit (js ''/r/'')) NotSpacePlus) (r3 @ tail @ ctx) Some = Some ctx"
proof -
  from assms(1) have "length r3 = length (js ''/r/'')"
    by (simp add: slash_r_slash known_length [OF assms(1)])
  then have "matchLit (js ''/r/'') (r3 @ tail @ ctx) = Some (tail @ ctx)"
    using assms(1) by (simp add: matchLit_same_length slash_r_slash)
  with assms(2) show ?thesis
    by (simp add: takeWhile_tail [OF assms(3,4)] backtrack_Some)
qed

lemma pattern_match:
  assumes "map canonicalize r3 = [47, 82, 47]" "tail \<noteq> []"
    "\<forall>c \<in> set tail. \<not> isWhiteSpace c" "endOrSpace ctx"
  shows "isForm hostPattern1 h \<Longrightarrow> rmatch redditPattern1 (h @ r3 @ tail @ ctx) Some = Some ctx"
    and "isForm hostPattern2 h \<Longrightarrow> rmatch redditPattern2 (h @ r3 @ tail @ ctx) Some = Some ctx"
  using path_match [OF assms]
  by (simp_all add: redditPattern1_def redditPattern2_def host1_form host2_form)

lemma pattern_other:
  shows "isForm hostPattern1 h \<Longrightarrow> rmatch redditPattern2 (h @ rest) k = None"
    and "isForm hostPattern2 h \<Longrightarrow> rmatch redditPattern1 (h @ rest) k = None"
  by (simp_all add: redditPattern1_def redditPattern2_def host1_form host2_form)

lemma path_shape:
  assumes "rmatch (Seq (Lit (js ''/r/'')) NotSpacePlus) s Some = Some rest"
  shows "\<exists>r3 tail. s = r3 @ tail @ rest \<and> map canonicalize r3 = [47, 82, 47] \<and> tail \<noteq> []
           \<and> (\<forall>c \<in> set tail. \<not> isWhiteSpace c)"
proof -
  from assms obtain s2 where s2: "matchLit (js ''/r/'') s = Some s2"
    "backtrack Some s2 (length (takeWhile (\<lambda>c. \<not> isWhiteSpace c) s2)) = Some rest"
    by (auto split: option.splits)
  define tail where "tail = takeWhile (\<lambda>c. \<not> isWhiteSpace c) s2"
  define r3 where "r3 = take 3 s"
  from s2(2) have tail: "tail \<noteq> []" "rest = drop (length tail) s2"
    unfolding tail_def by (auto simp: backtrack_Some split: if_splits)
  have "s2 = tail @ dropWhile (\<lambda>c. \<not> isWhiteSpace c) s2"
    unfolding tail_def by simp
  also have "dropWhile (\<lambda>c. \<not> isWhiteSpace c) s2 = rest"
    unfolding tail(2) tail_def by (rule dropWhile_eq_drop)
  finally have a: "s2 = tail @ rest" .
  from s2(1) have b: "s2 = drop 3 s" "map canonicalize r3 = [47, 82, 47]"
    unfolding r3_def by (simp_all add: matchLit_eq slash_r_slash split: if_splits)
  from a b(1) have e: "tail @ rest = drop 3 s" by simp
  have "r3 @ tail @ rest = s" unfolding r3_def e by simp
  then have c: "s = r3 @ tail @ rest" by (rule sym)
  have d: "\<forall>c \<in> set tail. \<not> isWhiteSpace c"
    unfolding tail_def by (auto dest: set_takeWhileD)
  show ?thesis
  proof (intro exI conjI)
    show "s = r3 @ tail @ rest" by (fact c)
    show "map canonicalize r3 = [47, 82, 47]" by (fact b(2))
    show "tail \<noteq> []" by (fact tail(1))
    show "\<forall>c \<in> set tail. \<not> isWhiteSpace c" by (fact d)
  qed
qed

lemma pattern_shape:
  assumes "rmatch (Seq host (Seq (Lit (js ''/r/'')) NotSpacePlus)) (m @ rest) Some = Some rest"
    and "literal host"
  shows "\<exists>h r3 tail. m = h @ r3 @ tail \<and> isForm host h \<and> map canonicalize r3 = [47, 82, 47]
           \<and> tail \<noteq> [] \<and> (\<forall>c \<in> set tail. \<not> isWhiteSpace c)"
proof -
  from assms(1) have
    "rmatch host (m @ rest) (\<lambda>r. rmatch (Seq (Lit (js ''/r/'')) NotSpacePlus) r Some) = Some rest"
    by simp
  from rmatch_literal_SomeD [OF assms(2) this]
  obtain h where "\<exists>r1. m @ rest = h @ r1 \<and> isForm host h
      \<and> rmatch (Seq (Lit (js ''/r/'')) NotSpacePlus) r1 Some = Some rest" ..
  then obtain r1 where h: "m @ rest = h @ r1 \<and> isForm host h
      \<and> rmatch (Seq (Lit (js ''/r/'')) NotSpacePlus) r1 Some = Some rest" ..
  from path_shape [OF h [THEN conjunct2, THEN conjunct2]]
  obtain r3 where "\<exists>tail. r1 = r3 @ tail @ rest \<and> map canonicalize r3 = [47, 82, 47]
      \<and> tail \<noteq> [] \<and> (\<forall>c \<in> set tail. \<not> isWhiteSpace c)" ..
  then obtain tail where t: "r1 = r3 @ tail @ rest \<and> map canonicalize r3 = [47, 82, 47]
      \<and> tail \<noteq> [] \<and> (\<forall>c \<in> set tail. \<not> isWhiteSpace c)" ..
  from h [THEN conjunct1] t [THEN conjunct1] have "m @ rest = (h @ r3 @ tail) @ rest" by simp
  then have m: "m = h @ r3 @ tail" by (simp only: append_same_eq)
  show ?thesis
  proof (intro exI conjI)
    show "m = h @ r3 @ tail" by (fact m)
    show "isForm host h" by (rule h [THEN conjunct2, THEN conjunct1])
    show "map canonicalize r3 = [47, 82, 47]" by (rule t [THEN conjunct2, THEN conjunct1])
    show "tail \<noteq> []" by (rule t [THEN conjunct2, THEN conjunct2, THEN conjunct1])
    show "\<forall>c \<in> set tail. \<not> isWhiteSpace c"
      by (rule t [THEN conjunct2, THEN conjunct2, THEN conjunct2])
  qed
qed

lemma matched_pieces:
  "m \<in> set (matchedTexts (scan r s)) \<Longrightarrow> \<exists>rest. rmatch r (m @ rest) Some = Some rest"
proof (induction r s rule: scan.induct)
  case (1 r s)
  show ?case
  proof (cases "rmatch r s Some")
    case None
    show ?thesis
    proof (cases s)
      case Nil
      with None 1(4) show ?thesis by (simp add: scan_Nil)
    next
      case (Cons c cs)
      with None 1(1,4) show ?thesis by (simp add: scan_skip)
    qed
  next
    case (Some rest)
    from Some obtain m' where m': "s = m' @ rest" by (auto dest: rmatch_Some_suffix)
    show ?thesis
    proof (cases "length rest < length s")
      case True
      with Some m' have "scan r s = Matched m' # scan r rest" by (simp add: scan_match)
      with 1(4) have "m = m' \<or> m \<in> set (matchedTexts (scan r rest))" by auto
      then show ?thesis
      proof
        assume "m = m'"
        with Some m' show ?thesis by auto
      next
        assume "m \<in> set (matchedTexts (scan r rest))"
        with 1(2) Some True show ?thesis by simp
      qed
    next
      case False
      with m' have e: "m' = []" "rest = s" by auto
      show ?thesis
      proof (cases s)
        case Nil
        with Some False 1(4) have "m = []" by (simp add: scan_empty)
        with Some Nil e show ?thesis by auto
      next
        case (Cons c cs)
        with Some False 1(4) have "m = [] \<or> m \<in> set (matchedTexts (scan r cs))"
          by (auto simp: scan_empty)
        then show ?thesis
        proof
          assume "m = []"
          with Some e show ?thesis by auto
        next
          assume "m \<in> set (matchedTexts (scan r cs))"
          with 1(3) Some False Cons show ?thesis by simp
        qed
      qed
    qed
  qed
qed

lemma set_foldl_setAdd: "set (foldl setAdd acc xs) = set acc \<union> set xs"
  by (induction xs arbitrary: acc) (auto simp: setAdd_def)

lemma distinct_foldl_setAdd: "distinct acc \<Longrightarrow> distinct (foldl setAdd acc xs)"
  by (induction xs arbitrary: acc) (auto simp: setAdd_def)

lemma set_newSet: "set (newSet xs) = set xs"
  by (simp add: newSet_def set_foldl_setAdd)

lemma distinct_newSet: "distinct (newSet xs)"
  by (simp add: newSet_def distinct_foldl_setAdd)

lemma setAdd_simps:
  "x \<in> set acc \<Longrightarrow> setAdd acc x = acc"
  "x \<notin> set acc \<Longrightarrow> setAdd acc x = acc @ [x]"
  by (simp_all add: setAdd_def)

lemma foldl_setAdd_filter:
  "foldl setAdd acc ys = acc @ filter (\<lambda>y. y \<notin> set acc) (newSet ys)"
proof (induction ys arbitrary: acc)
  case Nil
  then show ?case by (simp add: newSet_def)
next
  case (Cons y ys)
  have one: "newSet (y # ys) = y # filter (\<lambda>x. x \<noteq> y) (newSet ys)"
    using Cons [of "[y]"] by (simp add: newSet_def setAdd_simps)
  show ?case
  proof (cases "y \<in> set acc")
    case True
    then have "filter (\<lambda>x. x \<notin> set acc) (filter (\<lambda>x. x \<noteq> y) (newSet ys))
        = filter (\<lambda>x. x \<notin> set acc) (newSet ys)"
      by (auto intro: filter_cong)
    with True Cons [of acc] one show ?thesis by (simp add: setAdd_simps)
  next
    case False
    have "filter (\<lambda>x. x \<notin> set (acc @ [y])) (newSet ys)
        = filter (\<lambda>x. x \<notin> set acc) (filter (\<lambda>x. x \<noteq> y) (newSet ys))"
      by (auto intro: filter_cong)
    with False Cons [of "acc @ [y]"] one show ?thesis by (simp add: setAdd_simps)
  qed
qed

lemma newSet_append:
  "newSet (xs @ ys) = newSet xs @ filter (\<lambda>y. y \<notin> set xs) (newSet ys)"
proof -
  have "newSet (xs @ ys) = foldl setAdd (newSet xs) ys" by (simp add: newSet_def)
  then show ?thesis by (simp add: foldl_setAdd_filter [of "newSet xs"] set_newSet)
qed

lemma detect_eq:
  "detectRedditLinks s = newSet (stringMatch redditPattern1 s @ stringMatch redditPattern2 s)"
  by (simp add: detectRedditLinks_def REDDIT_PATTERNS_def)

lemma endOrSpace_delimited: "endOrSpace ctx \<Longrightarrow> delimited ctx"
  by (cases ctx) (auto simp: endOrSpace_def delimited_def breaksHost_def)

lemma literal_patterns:
  "rmatch redditPattern1 s k = rmatch hostPattern1 s (\<lambda>r. rmatch (Seq (Lit (js ''/r/'')) NotSpacePlus) r k)"
  "rmatch redditPattern2 s k = rmatch hostPattern2 s (\<lambda>r. rmatch (Seq (Lit (js ''/r/'')) NotSpacePlus) r k)"
  by (simp_all add: redditPattern1_def redditPattern2_def)

lemma startsWithH_all:
  "startsWithH hostPattern1" "startsWithH hostPattern2"
  "startsWithH redditPattern1" "startsWithH redditPattern2"
  by (simp_all add: startsWithH_def host_first_char pattern_first_char)

lemma skip_known:
  assumes "startsWithH r" "rmatch r (g @ ctx) Some = None" "\<forall>c \<in> set (tl g). canonicalize c \<noteq> 72"
  shows "scan r (g @ ctx) = map Unmatched g @ scan r ctx"
proof (rule scan_append_unmatched)
  fix i assume i: "i < length g"
  show "rmatch r (drop i g @ ctx) Some = None"
  proof (cases i)
    case 0
    with assms(2) show ?thesis by simp
  next
    case (Suc j)
    with i have "drop i g = (tl g ! j) # drop (Suc j) (tl g)"
      by (cases g) (auto simp: Cons_nth_drop_Suc)
    moreover from i Suc have "tl g ! j \<in> set (tl g)" by (cases g) auto
    ultimately show ?thesis using assms(1,3) by (simp add: startsWithH_def)
  qed
qed

lemma form_no_h:
  assumes "isForm hostPattern1 h \<or> isForm hostPattern2 h"
  shows "\<forall>c \<in> set (tl h). canonicalize c \<noteq> 72" and "h \<noteq> []"
proof -
  from assms have "72 \<notin> set (tl (map canonicalize h)) \<and> map canonicalize h \<noteq> []"
    by (auto simp: isForm_def expand_host1 expand_host2 js_forms)
  then show "\<forall>c \<in> set (tl h). canonicalize c \<noteq> 72" and "h \<noteq> []"
    by (auto simp: map_tl [symmetric])
qed

lemma rx_no_h: "\<forall>c \<in> set (tl (js ''https://rxddit.com'')). canonicalize c \<noteq> 72"
  by (simp add: js_def canonicalize_def)

lemma rx_no_match:
  "rmatch hostPattern1 (js ''https://rxddit.com'' @ rest) k = None"
  "rmatch hostPattern2 (js ''https://rxddit.com'' @ rest) k = None"
  by (simp_all add: host_eval matchLit_known_prefix [OF js_forms(9)])

lemma rx_no_pattern:
  "rmatch redditPattern1 (js ''https://rxddit.com'' @ rest) k = None"
  "rmatch redditPattern2 (js ''https://rxddit.com'' @ rest) k = None"
  by (simp_all add: literal_patterns rx_no_match)

lemma free_positions:
  assumes "hostFree x" "delimited ctx" "i < length x"
  shows "rmatch hostPattern1 (drop i x @ ctx) k = None"
    and "rmatch hostPattern2 (drop i x @ ctx) k = None"
proof -
  from assms have none: "rmatch hostPattern1 (drop i x) Some = None"
    "rmatch hostPattern2 (drop i x) Some = None"
    by (simp_all add: hostFree_def no_match_everywhere)
  from assms(3) have ne: "drop i x \<noteq> []" by simp
  show "rmatch hostPattern1 (drop i x @ ctx) k = None"
  proof (cases ctx)
    case Nil
    with none show ?thesis by (simp add: rmatch_literal_None literal_hosts)
  next
    case (Cons w ws)
    with assms(2) have "breaksHost w" by (simp add: delimited_def)
    from host_extend(1) [OF this ne none(1)] Cons show ?thesis by simp
  qed
  show "rmatch hostPattern2 (drop i x @ ctx) k = None"
  proof (cases ctx)
    case Nil
    with none show ?thesis by (simp add: rmatch_literal_None literal_hosts)
  next
    case (Cons w ws)
    with assms(2) have "breaksHost w" by (simp add: delimited_def)
    from host_extend(2) [OF this ne none(2)] Cons show ?thesis by simp
  qed
qed

lemma skip_free:
  assumes "hostFree x" "delimited ctx"
  shows "scan hostPattern1 (x @ ctx) = map Unmatched x @ scan hostPattern1 ctx"
    and "scan hostPattern2 (x @ ctx) = map Unmatched x @ scan hostPattern2 ctx"
    and "scan redditPattern1 (x @ ctx) = map Unmatched x @ scan redditPattern1 ctx"
    and "scan redditPattern2 (x @ ctx) = map Unmatched x @ scan redditPattern2 ctx"
  by (rule scan_append_unmatched, simp add: literal_patterns free_positions [OF assms])+

lemma matchedTexts_append: "matchedTexts (ps @ qs) = matchedTexts ps @ matchedTexts qs"
  by (induction ps rule: matchedTexts.induct) auto

lemma matchedTexts_Unmatched: "matchedTexts (map Unmatched x) = []"
  by (induction x) auto

lemma replacePieces_append:
  "replacePieces f (ps @ qs) = replacePieces f ps @ replacePieces f qs"
  by (induction ps rule: matchedTexts.induct) auto

lemma replacePieces_Unmatched: "replacePieces f (map Unmatched x) = x"
  by (induction x) auto

lemmas pieces_simps =
  matchedTexts_append matchedTexts_Unmatched replacePieces_append replacePieces_Unmatched


lemma linkPartsD:
  assumes "linkParts host h r3 tail"
  shows "isForm host h" "map canonicalize r3 = [47, 82, 47]" "tail \<noteq> []"
    "\<forall>c \<in> set tail. \<not> isWhiteSpace c"
  using assms by (simp_all add: linkParts_def slash_r_slash list_all_iff)

lemma pattern_shape_parts:
  assumes "rmatch (Seq host (Seq (Lit (js ''/r/'')) NotSpacePlus)) (m @ rest) Some = Some rest"
    and "literal host"
  shows "\<exists>h r3 tail. m = h @ r3 @ tail \<and> linkParts host h r3 tail"
proof -
  from pattern_shape [OF assms]
  obtain h where "\<exists>r3 tail. m = h @ r3 @ tail \<and> isForm host h
      \<and> map canonicalize r3 = [47, 82, 47] \<and> tail \<noteq> [] \<and> (\<forall>c \<in> set tail. \<not> isWhiteSpace c)" ..
  then obtain r3 where "\<exists>tail. m = h @ r3 @ tail \<and> isForm host h
      \<and> map canonicalize r3 = [47, 82, 47] \<and> tail \<noteq> [] \<and> (\<forall>c \<in> set tail. \<not> isWhiteSpace c)" ..
  then obtain tail where t: "m = h @ r3 @ tail \<and> isForm host h
      \<and> map canonicalize r3 = [47, 82, 47] \<and> tail \<noteq> [] \<and> (\<forall>c \<in> set tail. \<not> isWhiteSpace c)" ..
  then have "m = h @ r3 @ tail \<and> linkParts host h r3 tail"
    by (simp add: linkParts_def slash_r_slash list_all_iff)
  then show ?thesis by (intro exI)
qed

lemma matched_shape:
  shows "L \<in> set (stringMatch redditPattern1 t)
      \<Longrightarrow> \<exists>h r3 tail. L = h @ r3 @ tail \<and> linkParts hostPattern1 h r3 tail"
    and "L \<in> set (stringMatch redditPattern2 t)
      \<Longrightarrow> \<exists>h r3 tail. L = h @ r3 @ tail \<and> linkParts hostPattern2 h r3 tail"
proof -
  assume "L \<in> set (stringMatch redditPattern1 t)"
  then obtain rest where "rmatch redditPattern1 (L @ rest) Some = Some rest"
    unfolding stringMatch_def by (auto dest: matched_pieces)
  then show "\<exists>h r3 tail. L = h @ r3 @ tail \<and> linkParts hostPattern1 h r3 tail"
    unfolding redditPattern1_def by (rule pattern_shape_parts) (rule literal_hosts)
next
  assume "L \<in> set (stringMatch redditPattern2 t)"
  then obtain rest where "rmatch redditPattern2 (L @ rest) Some = Some rest"
    unfolding stringMatch_def by (auto dest: matched_pieces)
  then show "\<exists>h r3 tail. L = h @ r3 @ tail \<and> linkParts hostPattern2 h r3 tail"
    unfolding redditPattern2_def by (rule pattern_shape_parts) (rule literal_hosts)
qed

lemma detected_shape:
  assumes "L \<in> set (detectRedditLinks t)"
  shows "\<exists>h r3 tail. L = h @ r3 @ tail
           \<and> (linkParts hostPattern1 h r3 tail \<or> linkParts hostPattern2 h r3 tail)"
proof -
  from assms have "L \<in> set (stringMatch redditPattern1 t) \<or> L \<in> set (stringMatch redditPattern2 t)"
    by (simp add: detect_eq set_newSet)
  then show ?thesis
  proof
    assume "L \<in> set (stringMatch redditPattern1 t)"
    from matched_shape(1) [OF this] show ?thesis by (elim exE conjE) (intro exI conjI disjI1)
  next
    assume "L \<in> set (stringMatch redditPattern2 t)"
    from matched_shape(2) [OF this] show ?thesis by (elim exE conjE) (intro exI conjI disjI2)
  qed
qed




lemma scan_Nil_all:
  "scan hostPattern1 [] = []" "scan hostPattern2 [] = []"
  "scan redditPattern1 [] = []" "scan redditPattern2 [] = []"
  by (rule scan_Nil, simp add: literal_patterns rmatch_host expand_host1 expand_host2 js_def)+

lemma form_delimited:
  assumes "isForm hostPattern1 h \<or> isForm hostPattern2 h"
  shows "delimited (h @ x)"
proof -
  from assms have "\<exists>C. map canonicalize h = 72 # C"
    by (auto simp: isForm_def expand_host1 expand_host2 js_forms)
  then obtain c cs where "h = c # cs" "canonicalize c = 72"
    by (auto simp: map_eq_Cons_conv)
  then show ?thesis by (simp add: delimited_def breaksHost_def)
qed

lemma distinct_count_one: "distinct xs \<Longrightarrow> x \<in> set xs \<Longrightarrow> count_list xs x = 1"
  by (induction xs) (auto simp: count_list_0_iff)

lemma snd_offsets: "map snd (offsets i ps) = matchedTexts ps"
  by (induction i ps rule: offsets.induct) simp_all

lemma fst_offsets_ge: "p \<in> set (offsets i ps) \<Longrightarrow> i \<le> fst p"
  by (induction i ps rule: offsets.induct) (auto dest: Suc_leD)

lemma offsets_sorted:
  "\<forall>m \<in> set (matchedTexts ps). m \<noteq> [] \<Longrightarrow> sorted_wrt (<) (map fst (offsets i ps))"
proof (induction i ps rule: offsets.induct)
  case (3 i m ps)
  then have "m \<noteq> []" by simp
  then have "i < fst p" if "p \<in> set (offsets (i + length m) ps)" for p
    using fst_offsets_ge [OF that] by (cases m) simp_all
  with 3 show ?case by simp
qed simp_all

lemma offsets_located:
  "(j, m) \<in> set (offsets i ps)
    \<Longrightarrow> take (length m) (drop (j - i) (replacePieces (\<lambda>m. m) ps)) = m"
proof (induction i ps rule: offsets.induct)
  case (2 i c ps)
  from fst_offsets_ge [OF 2(2) [simplified]] have "Suc i \<le> j" by simp
  then have "j - i = Suc (j - Suc i)" by simp
  with 2 show ?case by simp
next
  case (3 i m' ps)
  from 3(2) have "(j, m) = (i, m') \<or> (j, m) \<in> set (offsets (i + length m') ps)" by simp
  then show ?case
  proof
    assume "(j, m) = (i, m')"
    then show ?thesis by simp
  next
    assume a: "(j, m) \<in> set (offsets (i + length m') ps)"
    from fst_offsets_ge [OF a] have "i + length m' \<le> j" by simp
    then have "j - i = length m' + (j - (i + length m'))" by simp
    then have "drop (j - i) (m' @ replacePieces (\<lambda>m. m) ps)
        = drop (j - (i + length m')) (replacePieces (\<lambda>m. m) ps)"
      by (simp only: drop_drop [symmetric] add.commute [of "length m'"]) simp
    with 3(1) [OF a] show ?thesis by simp
  qed
qed simp

lemma occurrences_located:
  assumes "(j, m) \<in> set (occurrences r s)"
  shows "take (length m) (drop j s) = m"
  using offsets_located [of j m 0 "scan r s"] assms
  by (simp add: occurrences_def replacePieces_id_scan)

lemma matched_nonempty:
  shows "\<forall>m \<in> set (stringMatch redditPattern1 s). m \<noteq> []"
    and "\<forall>m \<in> set (stringMatch redditPattern2 s). m \<noteq> []"
proof -
  show "\<forall>m \<in> set (stringMatch redditPattern1 s). m \<noteq> []"
  proof
    fix m assume "m \<in> set (stringMatch redditPattern1 s)"
    from matched_shape(1) [OF this] obtain h r3 tail
      where "m = h @ r3 @ tail" "linkParts hostPattern1 h r3 tail"
      by (elim exE conjE)
    then show "m \<noteq> []" by (simp add: linkPartsD(3))
  qed
  show "\<forall>m \<in> set (stringMatch redditPattern2 s). m \<noteq> []"
  proof
    fix m assume "m \<in> set (stringMatch redditPattern2 s)"
    from matched_shape(2) [OF this] obtain h r3 tail
      where "m = h @ r3 @ tail" "linkParts hostPattern2 h r3 tail"
      by (elim exE conjE)
    then show "m \<noteq> []" by (simp add: linkPartsD(3))
  qed
qed

lemma patterns_disjoint:
  assumes "L \<in> set (stringMatch redditPattern2 s)"
  shows "L \<notin> set (stringMatch redditPattern1 t)"
proof
  assume "L \<in> set (stringMatch redditPattern1 t)"
  from matched_shape(1) [OF this] obtain h r3 tail
    where L: "L = h @ r3 @ tail" and p: "linkParts hostPattern1 h r3 tail"
    by (elim exE conjE)
  from p have h: "isForm hostPattern1 h" by (rule linkPartsD)
  from assms obtain rest where "rmatch redditPattern2 (L @ rest) Some = Some rest"
    unfolding stringMatch_def by (auto dest: matched_pieces)
  then have "rmatch redditPattern2 (h @ (r3 @ tail @ rest)) Some = Some rest"
    by (simp add: L)
  with pattern_other(1) [OF h, of "r3 @ tail @ rest" Some] show False by simp
qed

lemma detect_groups:
  "detectRedditLinks s
     = newSet (stringMatch redditPattern1 s) @ newSet (stringMatch redditPattern2 s)"
proof -
  have "filter (\<lambda>y. y \<notin> set (stringMatch redditPattern1 s)) (newSet (stringMatch redditPattern2 s))
      = newSet (stringMatch redditPattern2 s)"
    by (rule filter_True) (simp add: set_newSet patterns_disjoint)
  then show ?thesis by (simp add: detect_eq newSet_append)
qed

lemma headKind_append: "x \<noteq> [] \<Longrightarrow> headKind (x @ y) = headKind x"
  by (cases x) (simp_all add: headKind_def)

lemma space_not_h: "isWhiteSpace c \<Longrightarrow> canonicalize c \<noteq> 72"
  using whitespace_canon [of c] by auto

lemma delimited_headKind: "delimited s = (headKind s \<noteq> AtOther)"
  by (cases s) (auto simp: delimited_def breaksHost_def headKind_def space_not_h)

lemma endOrSpace_headKind: "endOrSpace s = (headKind s = AtEnd \<or> headKind s = AtSpace)"
  by (cases s) (auto simp: endOrSpace_def headKind_def)

lemma headKind_rx: "headKind (js ''https://rxddit.com'' @ z) = AtH"
  by (simp add: js_def headKind_def isWhiteSpace_def canonicalize_def)

lemma headKind_HD:
  assumes "headKind s = AtH"
  obtains c cs where "s = c # cs" "\<not> isWhiteSpace c" "canonicalize c = 72"
  using assms by (cases s) (auto simp: headKind_def split: if_splits)

lemma headKind_HI: "\<not> isWhiteSpace c \<Longrightarrow> canonicalize c = 72 \<Longrightarrow> headKind (c # cs) = AtH"
  by (simp add: headKind_def)

subsection \<open>Literals in a context\<close>

lemma matchLit_Some_append:
  "matchLit p s = Some r \<Longrightarrow> matchLit p (s @ t) = Some (r @ t)"
  by (induction p s rule: matchLit.induct) (auto split: if_splits)

lemma matchLit_context:
  assumes "canonicalize w \<notin> set (map canonicalize (tl q))" "y \<noteq> []"
  shows "matchLit q (y @ w # ctx) = map_option (\<lambda>r. r @ w # ctx) (matchLit q y)"
proof (cases "matchLit q y")
  case None
  with assms show ?thesis by (simp add: matchLit_extend)
next
  case (Some r)
  then show ?thesis by (simp add: matchLit_Some_append)
qed

lemma matchLit_context_all:
  assumes "canonicalize w \<notin> set (map canonicalize q)"
  shows "matchLit q (y @ w # ctx) = map_option (\<lambda>r. r @ w # ctx) (matchLit q y)"
proof (cases "matchLit q y")
  case None
  with assms show ?thesis by (simp add: matchLit_extend_all)
next
  case (Some r)
  then show ?thesis by (simp add: matchLit_Some_append)
qed

lemma firstSome_map_option:
  "firstSome (\<lambda>p. map_option f (g p)) xs = map_option f (firstSome g xs)"
  by (induction xs) (auto split: option.splits)

lemma firstSome_cong:
  "(\<And>x. x \<in> set xs \<Longrightarrow> f x = g x) \<Longrightarrow> firstSome f xs = firstSome g xs"
  by (induction xs) (auto split: option.splits)

lemma host_context:
  assumes "delimited ctx" "y \<noteq> []"
  shows "rmatch hostPattern1 (y @ ctx) Some
           = map_option (\<lambda>r. r @ ctx) (rmatch hostPattern1 y Some)"
    and "rmatch hostPattern2 (y @ ctx) Some
           = map_option (\<lambda>r. r @ ctx) (rmatch hostPattern2 y Some)"
proof -
  have lit: "(case matchLit p (y @ ctx) of None \<Rightarrow> None | Some rest \<Rightarrow> Some rest)
      = map_option (\<lambda>r. r @ ctx) (case matchLit p y of None \<Rightarrow> None | Some rest \<Rightarrow> Some rest)"
    if "p \<in> set (expand hostPattern1) \<union> set (expand hostPattern2)" for p
  proof (cases ctx)
    case Nil
    then show ?thesis by (simp split: option.splits)
  next
    case (Cons w ws)
    with assms(1) have "breaksHost w" by (simp add: delimited_def)
    from breaksHost_tails [OF this that] assms(2)
    have "matchLit p (y @ w # ws) = map_option (\<lambda>r. r @ w # ws) (matchLit p y)"
      by (rule matchLit_context)
    then show ?thesis by (simp add: Cons split: option.splits)
  qed
  have "firstSome (\<lambda>p. case matchLit p (y @ ctx) of None \<Rightarrow> None | Some rest \<Rightarrow> Some rest)
          (expand hostPattern1)
      = firstSome (\<lambda>p. map_option (\<lambda>r. r @ ctx)
          (case matchLit p y of None \<Rightarrow> None | Some rest \<Rightarrow> Some rest)) (expand hostPattern1)"
    by (rule firstSome_cong) (simp add: lit)
  then show "rmatch hostPattern1 (y @ ctx) Some
           = map_option (\<lambda>r. r @ ctx) (rmatch hostPattern1 y Some)"
    by (simp only: rmatch_host firstSome_map_option)
  have "firstSome (\<lambda>p. case matchLit p (y @ ctx) of None \<Rightarrow> None | Some rest \<Rightarrow> Some rest)
          (expand hostPattern2)
      = firstSome (\<lambda>p. map_option (\<lambda>r. r @ ctx)
          (case matchLit p y of None \<Rightarrow> None | Some rest \<Rightarrow> Some rest)) (expand hostPattern2)"
    by (rule firstSome_cong) (simp add: lit)
  then show "rmatch hostPattern2 (y @ ctx) Some
           = map_option (\<lambda>r. r @ ctx) (rmatch hostPattern2 y Some)"
    by (simp only: rmatch_host firstSome_map_option)
qed

subsection \<open>Scanning a text before a context\<close>

lemma scan_split:
  assumes ctx: "\<And>y. y \<noteq> [] \<Longrightarrow>
        rmatch r (y @ ctx) Some = map_option (\<lambda>rest. rest @ ctx) (rmatch r y Some)"
    and nil: "rmatch r [] Some = None"
    and nonempty: "\<And>y rest. rmatch r y Some = Some rest \<Longrightarrow> length rest < length y"
  shows "scan r (x @ ctx) = scan r x @ scan r ctx"
proof (induction x rule: length_induct)
  case (1 x)
  show ?case
  proof (cases x)
    case Nil
    then show ?thesis by (simp add: scan_Nil nil)
  next
    case (Cons c cs)
    then have ne: "x \<noteq> []" by simp
    show ?thesis
    proof (cases "rmatch r x Some")
      case None
      with ctx [OF ne] have "rmatch r (c # cs @ ctx) Some = None" by (simp add: Cons)
      then have "scan r (x @ ctx) = Unmatched c # scan r (cs @ ctx)"
        by (simp add: Cons scan_skip)
      moreover from None have "scan r x = Unmatched c # scan r cs"
        by (simp add: Cons scan_skip)
      moreover from 1 Cons have "scan r (cs @ ctx) = scan r cs @ scan r ctx" by simp
      ultimately show ?thesis by simp
    next
      case (Some rest)
      from nonempty [OF Some] have lt: "length rest < length x" .
      from Some obtain m where m: "x = m @ rest" by (auto dest: rmatch_Some_suffix)
      with lt have mne: "m \<noteq> []" by auto
      from ctx [OF ne] Some have "rmatch r (m @ rest @ ctx) Some = Some (rest @ ctx)"
        by (simp add: m)
      then have "scan r (m @ rest @ ctx) = Matched m # scan r (rest @ ctx)"
        using mne by (rule scan_match_append)
      moreover from Some have "scan r (m @ rest) = Matched m # scan r rest"
        unfolding m using mne by (rule scan_match_append)
      moreover from 1 lt have "scan r (rest @ ctx) = scan r rest @ scan r ctx" by simp
      ultimately show ?thesis by (simp add: m)
    qed
  qed
qed

lemma host_nil: "rmatch hostPattern1 [] Some = None" "rmatch hostPattern2 [] Some = None"
  by (simp_all add: rmatch_host expand_host1 expand_host2 js_def)

lemma host_nonempty:
  shows "rmatch hostPattern1 y Some = Some rest \<Longrightarrow> length rest < length y"
    and "rmatch hostPattern2 y Some = Some rest \<Longrightarrow> length rest < length y"
proof -
  assume "rmatch hostPattern1 y Some = Some rest"
  from rmatch_literal_SomeD [OF literal_hosts(1) this]
  obtain h rest' where "y = h @ rest'" "isForm hostPattern1 h" "Some rest' = Some rest"
    by (elim exE conjE)
  with form_no_h(2) [of h] show "length rest < length y" by simp
next
  assume "rmatch hostPattern2 y Some = Some rest"
  from rmatch_literal_SomeD [OF literal_hosts(2) this]
  obtain h rest' where "y = h @ rest'" "isForm hostPattern2 h" "Some rest' = Some rest"
    by (elim exE conjE)
  with form_no_h(2) [of h] show "length rest < length y" by simp
qed

lemma scan_host_split:
  assumes "delimited ctx"
  shows "scan hostPattern1 (x @ ctx) = scan hostPattern1 x @ scan hostPattern1 ctx"
    and "scan hostPattern2 (x @ ctx) = scan hostPattern2 x @ scan hostPattern2 ctx"
  by (rule scan_split; simp add: host_context [OF assms] host_nil host_nonempty)+

subsection \<open>Replacing the hosts\<close>

lemma convertToRxddit_replaceHost:
  "convertToRxddit url = replaceHost hostPattern2 (replaceHost hostPattern1 url)"
  by (simp add: convertToRxddit_def replaceHost_def)

lemma replaceHost_Nil: "replaceHost hostPattern1 [] = []" "replaceHost hostPattern2 [] = []"
  by (simp_all add: replaceHost_def stringReplace_def scan_Nil_all)

lemma replaceHost_skip:
  shows "rmatch hostPattern1 (c # cs) Some = None
      \<Longrightarrow> replaceHost hostPattern1 (c # cs) = c # replaceHost hostPattern1 cs"
    and "rmatch hostPattern2 (c # cs) Some = None
      \<Longrightarrow> replaceHost hostPattern2 (c # cs) = c # replaceHost hostPattern2 cs"
  by (simp_all add: replaceHost_def stringReplace_def scan_skip)

lemma replaceHost_match:
  shows "rmatch hostPattern1 y Some = Some rest
      \<Longrightarrow> replaceHost hostPattern1 y = js ''https://rxddit.com'' @ replaceHost hostPattern1 rest"
    and "rmatch hostPattern2 y Some = Some rest
      \<Longrightarrow> replaceHost hostPattern2 y = js ''https://rxddit.com'' @ replaceHost hostPattern2 rest"
  by (simp_all add: replaceHost_def stringReplace_def scan_match host_nonempty)

lemma host_match_headKind:
  assumes "rmatch hostPattern1 (c # cs) Some \<noteq> None \<or> rmatch hostPattern2 (c # cs) Some \<noteq> None"
  shows "headKind (c # cs) = AtH"
proof -
  have "canonicalize c = 72"
  proof (rule ccontr)
    assume "canonicalize c \<noteq> 72"
    from host_first_char [OF this, of cs Some] assms show False by simp
  qed
  moreover from this have "\<not> isWhiteSpace c" using space_not_h [of c] by auto
  ultimately show ?thesis by (simp add: headKind_def)
qed

lemma replaceHost_headKind:
  "headKind (replaceHost hostPattern1 y) = headKind y"
  "headKind (replaceHost hostPattern2 y) = headKind y"
proof -
  show "headKind (replaceHost hostPattern1 y) = headKind y"
  proof (cases y)
    case Nil
    then show ?thesis by (simp add: replaceHost_Nil)
  next
    case (Cons c cs)
    show ?thesis
    proof (cases "rmatch hostPattern1 y Some")
      case None
      then show ?thesis unfolding Cons by (simp add: replaceHost_skip headKind_def)
    next
      case (Some rest)
      with host_match_headKind [of c cs] Cons have "headKind y = AtH" by simp
      with Some show ?thesis by (simp add: replaceHost_match headKind_rx)
    qed
  qed
  show "headKind (replaceHost hostPattern2 y) = headKind y"
  proof (cases y)
    case Nil
    then show ?thesis by (simp add: replaceHost_Nil)
  next
    case (Cons c cs)
    show ?thesis
    proof (cases "rmatch hostPattern2 y Some")
      case None
      then show ?thesis unfolding Cons by (simp add: replaceHost_skip headKind_def)
    next
      case (Some rest)
      with host_match_headKind [of c cs] Cons have "headKind y = AtH" by simp
      with Some show ?thesis by (simp add: replaceHost_match headKind_rx)
    qed
  qed
qed

lemma convertToRxddit_headKind: "headKind (convertToRxddit y) = headKind y"
  by (simp add: convertToRxddit_replaceHost replaceHost_headKind)

lemma replaceHost_append:
  assumes "delimited ctx"
  shows "replaceHost hostPattern1 (x @ ctx)
           = replaceHost hostPattern1 x @ replaceHost hostPattern1 ctx"
    and "replaceHost hostPattern2 (x @ ctx)
           = replaceHost hostPattern2 x @ replaceHost hostPattern2 ctx"
  by (simp_all add: replaceHost_def stringReplace_def scan_host_split [OF assms]
        replacePieces_append)

lemma convertToRxddit_append:
  assumes "delimited ctx"
  shows "convertToRxddit (x @ ctx) = convertToRxddit x @ convertToRxddit ctx"
proof -
  from assms have "delimited (replaceHost hostPattern1 ctx)"
    by (simp add: delimited_headKind replaceHost_headKind)
  then show ?thesis
    by (simp add: convertToRxddit_replaceHost replaceHost_append [OF assms] replaceHost_append)
qed

lemma replaceHost_rx:
  "replaceHost hostPattern1 (js ''https://rxddit.com'' @ z)
     = js ''https://rxddit.com'' @ replaceHost hostPattern1 z"
  "replaceHost hostPattern2 (js ''https://rxddit.com'' @ z)
     = js ''https://rxddit.com'' @ replaceHost hostPattern2 z"
proof -
  have "scan hostPattern1 (js ''https://rxddit.com'' @ z)
      = map Unmatched (js ''https://rxddit.com'') @ scan hostPattern1 z"
    by (rule skip_known) (simp_all add: startsWithH_all rx_no_match rx_no_h)
  then show "replaceHost hostPattern1 (js ''https://rxddit.com'' @ z)
     = js ''https://rxddit.com'' @ replaceHost hostPattern1 z"
    by (simp add: replaceHost_def stringReplace_def pieces_simps)
  have "scan hostPattern2 (js ''https://rxddit.com'' @ z)
      = map Unmatched (js ''https://rxddit.com'') @ scan hostPattern2 z"
    by (rule skip_known) (simp_all add: startsWithH_all rx_no_match rx_no_h)
  then show "replaceHost hostPattern2 (js ''https://rxddit.com'' @ z)
     = js ''https://rxddit.com'' @ replaceHost hostPattern2 z"
    by (simp add: replaceHost_def stringReplace_def pieces_simps)
qed

lemma convertToRxddit_form:
  assumes "isForm hostPattern1 h \<or> isForm hostPattern2 h"
  shows "convertToRxddit (h @ rest) = js ''https://rxddit.com'' @ convertToRxddit rest"
  using assms
proof
  assume h: "isForm hostPattern1 h"
  have "rmatch hostPattern1 (h @ rest) Some = Some rest"
    using host1_form [OF h, where rest = rest and k = Some] by simp
  then have "replaceHost hostPattern1 (h @ rest)
      = js ''https://rxddit.com'' @ replaceHost hostPattern1 rest"
    by (rule replaceHost_match)
  then show ?thesis by (simp add: convertToRxddit_replaceHost replaceHost_rx)
next
  assume h: "isForm hostPattern2 h"
  from form_no_h [of h] h have nh: "h \<noteq> []" "\<forall>c \<in> set (tl h). canonicalize c \<noteq> 72"
    by simp_all
  have "scan hostPattern1 (h @ replaceHost hostPattern1 rest)
      = map Unmatched h @ scan hostPattern1 (replaceHost hostPattern1 rest)"
    using host2_form [OF h, where rest = "replaceHost hostPattern1 rest" and k = Some] nh
    by (intro skip_known) (simp_all add: startsWithH_all)
  have "scan hostPattern1 (h @ rest) = map Unmatched h @ scan hostPattern1 rest"
    using host2_form [OF h, where rest = rest and k = Some] nh
    by (intro skip_known) (simp_all add: startsWithH_all)
  then have 1: "replaceHost hostPattern1 (h @ rest) = h @ replaceHost hostPattern1 rest"
    by (simp add: replaceHost_def stringReplace_def pieces_simps)
  have "rmatch hostPattern2 (h @ replaceHost hostPattern1 rest) Some
      = Some (replaceHost hostPattern1 rest)"
    using host2_form [OF h, where rest = "replaceHost hostPattern1 rest" and k = Some] by simp
  then have "replaceHost hostPattern2 (h @ replaceHost hostPattern1 rest)
      = js ''https://rxddit.com'' @ replaceHost hostPattern2 (replaceHost hostPattern1 rest)"
    by (rule replaceHost_match)
  with 1 show ?thesis by (simp add: convertToRxddit_replaceHost)
qed

lemma convertToRxddit_hostFree: "hostFree z \<Longrightarrow> convertToRxddit z = z"
  by (simp add: convertToRxddit_def hostFree_def stringReplace_no_match)

subsection \<open>A failed host match and a replacement after it\<close>

lemma replaceHost_plain:
  assumes "\<forall>c \<in> set u. canonicalize c \<noteq> 72"
  shows "replaceHost hostPattern1 (u @ v) = u @ replaceHost hostPattern1 v"
    and "replaceHost hostPattern2 (u @ v) = u @ replaceHost hostPattern2 v"
proof -
  have none: "rmatch hostPattern1 (drop i u @ v) Some = None"
    "rmatch hostPattern2 (drop i u @ v) Some = None" if "i < length u" for i
  proof -
    from that have "drop i u = u ! i # drop (Suc i) u" by (simp add: Cons_nth_drop_Suc)
    moreover from that assms have "canonicalize (u ! i) \<noteq> 72" by simp
    ultimately show "rmatch hostPattern1 (drop i u @ v) Some = None"
      "rmatch hostPattern2 (drop i u @ v) Some = None"
      by (simp_all add: host_first_char)
  qed
  have "scan hostPattern1 (u @ v) = map Unmatched u @ scan hostPattern1 v"
    by (rule scan_append_unmatched) (rule none)
  then show "replaceHost hostPattern1 (u @ v) = u @ replaceHost hostPattern1 v"
    by (simp add: replaceHost_def stringReplace_def pieces_simps)
  have "scan hostPattern2 (u @ v) = map Unmatched u @ scan hostPattern2 v"
    by (rule scan_append_unmatched) (rule none)
  then show "replaceHost hostPattern2 (u @ v) = u @ replaceHost hostPattern2 v"
    by (simp add: replaceHost_def stringReplace_def pieces_simps)
qed

lemma host_None_context:
  assumes "delimited v" "delimited w"
  shows "rmatch hostPattern1 (c # u @ v) Some = None
      \<Longrightarrow> rmatch hostPattern1 (c # u @ w) Some = None"
    and "rmatch hostPattern2 (c # u @ v) Some = None
      \<Longrightarrow> rmatch hostPattern2 (c # u @ w) Some = None"
proof -
  assume "rmatch hostPattern1 (c # u @ v) Some = None"
  then have "rmatch hostPattern1 (c # u) Some = None"
    using host_context(1) [OF assms(1), of "c # u"] by simp
  then show "rmatch hostPattern1 (c # u @ w) Some = None"
    using host_context(1) [OF assms(2), of "c # u"] by simp
next
  assume "rmatch hostPattern2 (c # u @ v) Some = None"
  then have "rmatch hostPattern2 (c # u) Some = None"
    using host_context(2) [OF assms(1), of "c # u"] by simp
  then show "rmatch hostPattern2 (c # u @ w) Some = None"
    using host_context(2) [OF assms(2), of "c # u"] by simp
qed

lemma plain_prefix:
  obtains u v where "cs = u @ v" "\<forall>c \<in> set u. canonicalize c \<noteq> 72" "delimited v"
proof
  let ?u = "takeWhile (\<lambda>c. canonicalize c \<noteq> 72) cs"
  let ?v = "dropWhile (\<lambda>c. canonicalize c \<noteq> 72) cs"
  show "cs = ?u @ ?v" by simp
  show "\<forall>c \<in> set ?u. canonicalize c \<noteq> 72" by (auto dest: set_takeWhileD)
  show "delimited ?v"
  proof (cases ?v)
    case Nil
    then show ?thesis by (simp only: delimited_def list.simps)
  next
    case (Cons w ws)
    then have "\<not> canonicalize w \<noteq> 72"
      using hd_dropWhile [of "\<lambda>c. canonicalize c \<noteq> 72" cs] by auto
    then have "breaksHost w" by (simp add: breaksHost_def)
    with Cons show ?thesis by (simp only: delimited_def list.simps)
  qed
qed

lemma host_None_tail:
  assumes "rmatch host (c # cs) Some = None" and "host = hostPattern1 \<or> host = hostPattern2"
  shows "rmatch host (c # replaceHost hostPattern1 cs) Some = None"
    and "rmatch host (c # replaceHost hostPattern2 cs) Some = None"
proof -
  obtain u v where cs: "cs = u @ v" and u: "\<forall>c \<in> set u. canonicalize c \<noteq> 72"
    and v: "delimited v"
    by (rule plain_prefix)
  have d: "delimited (replaceHost hostPattern1 v)" "delimited (replaceHost hostPattern2 v)"
    using v by (simp_all add: delimited_headKind replaceHost_headKind)
  from assms(2) show "rmatch host (c # replaceHost hostPattern1 cs) Some = None"
  proof
    assume "host = hostPattern1"
    with assms(1) show ?thesis
      unfolding cs replaceHost_plain [OF u] by (simp add: host_None_context(1) [OF v d(1)])
  next
    assume "host = hostPattern2"
    with assms(1) show ?thesis
      unfolding cs replaceHost_plain [OF u] by (simp add: host_None_context(2) [OF v d(1)])
  qed
  from assms(2) show "rmatch host (c # replaceHost hostPattern2 cs) Some = None"
  proof
    assume "host = hostPattern1"
    with assms(1) show ?thesis
      unfolding cs replaceHost_plain [OF u] by (simp add: host_None_context(1) [OF v d(2)])
  next
    assume "host = hostPattern2"
    with assms(1) show ?thesis
      unfolding cs replaceHost_plain [OF u] by (simp add: host_None_context(2) [OF v d(2)])
  qed
qed

lemma host_None_converted:
  assumes "rmatch host (c # cs) Some = None" and "host = hostPattern1 \<or> host = hostPattern2"
  shows "rmatch host (c # convertToRxddit cs) Some = None"
  unfolding convertToRxddit_replaceHost
  by (rule host_None_tail(2) [OF host_None_tail(1) [OF assms] assms(2)])

lemma convertToRxddit_skip:
  assumes "rmatch hostPattern1 (c # cs) Some = None" "rmatch hostPattern2 (c # cs) Some = None"
  shows "convertToRxddit (c # cs) = c # convertToRxddit cs"
proof -
  have "rmatch hostPattern2 (c # replaceHost hostPattern1 cs) Some = None"
    by (rule host_None_tail(1) [OF assms(2)]) simp
  with assms(1) show ?thesis
    by (simp add: convertToRxddit_replaceHost replaceHost_skip)
qed

subsection \<open>A converted text holds no Reddit host\<close>

lemma hostFree_Nil: "hostFree []"
  by (simp add: hostFree_def stringMatch_def scan_Nil_all)

lemma hostFree_Cons:
  assumes "rmatch hostPattern1 (c # z) Some = None" "rmatch hostPattern2 (c # z) Some = None"
    "hostFree z"
  shows "hostFree (c # z)"
  using assms by (simp add: hostFree_def stringMatch_def scan_skip)

lemma hostFree_rx:
  assumes "hostFree z"
  shows "hostFree (js ''https://rxddit.com'' @ z)"
proof -
  have "scan hostPattern1 (js ''https://rxddit.com'' @ z)
      = map Unmatched (js ''https://rxddit.com'') @ scan hostPattern1 z"
    by (rule skip_known) (simp_all add: startsWithH_all rx_no_match rx_no_h)
  moreover have "scan hostPattern2 (js ''https://rxddit.com'' @ z)
      = map Unmatched (js ''https://rxddit.com'') @ scan hostPattern2 z"
    by (rule skip_known) (simp_all add: startsWithH_all rx_no_match rx_no_h)
  ultimately show ?thesis
    using assms by (simp add: hostFree_def stringMatch_def pieces_simps)
qed

lemma host_match_form:
  assumes "rmatch hostPattern1 y Some \<noteq> None \<or> rmatch hostPattern2 y Some \<noteq> None"
  obtains h rest where "y = h @ rest" "isForm hostPattern1 h \<or> isForm hostPattern2 h"
    "length rest < length y"
  using assms
proof
  assume "rmatch hostPattern1 y Some \<noteq> None"
  then obtain r where r: "rmatch hostPattern1 y Some = Some r" by auto
  from rmatch_literal_SomeD [OF literal_hosts(1) r]
  obtain h rest where "y = h @ rest" "isForm hostPattern1 h" by (elim exE conjE)
  with form_no_h(2) [of h] that show ?thesis by simp
next
  assume "rmatch hostPattern2 y Some \<noteq> None"
  then obtain r where r: "rmatch hostPattern2 y Some = Some r" by auto
  from rmatch_literal_SomeD [OF literal_hosts(2) r]
  obtain h rest where "y = h @ rest" "isForm hostPattern2 h" by (elim exE conjE)
  with form_no_h(2) [of h] that show ?thesis by simp
qed

lemma hostFree_converted: "hostFree (convertToRxddit x)"
proof (induction x rule: length_induct)
  case (1 x)
  show ?case
  proof (cases x)
    case Nil
    then show ?thesis
      by (simp add: convertToRxddit_replaceHost replaceHost_Nil hostFree_Nil)
  next
    case (Cons c cs)
    show ?thesis
    proof (cases "rmatch hostPattern1 x Some = None \<and> rmatch hostPattern2 x Some = None")
      case True
      then have n: "rmatch hostPattern1 (c # cs) Some = None"
        "rmatch hostPattern2 (c # cs) Some = None"
        by (simp_all add: Cons)
      from 1 Cons have "hostFree (convertToRxddit cs)" by simp
      moreover have "rmatch hostPattern1 (c # convertToRxddit cs) Some = None"
        by (rule host_None_converted [OF n(1)]) simp
      moreover have "rmatch hostPattern2 (c # convertToRxddit cs) Some = None"
        by (rule host_None_converted [OF n(2)]) simp
      ultimately have "hostFree (c # convertToRxddit cs)" by (intro hostFree_Cons)
      then show ?thesis by (simp add: Cons convertToRxddit_skip [OF n])
    next
      case False
      then have "rmatch hostPattern1 x Some \<noteq> None \<or> rmatch hostPattern2 x Some \<noteq> None"
        by simp
      then obtain h rest where x: "x = h @ rest"
        and h: "isForm hostPattern1 h \<or> isForm hostPattern2 h" and lt: "length rest < length x"
        by (rule host_match_form)
      from 1 lt have "hostFree (convertToRxddit rest)" by simp
      then have "hostFree (js ''https://rxddit.com'' @ convertToRxddit rest)"
        by (rule hostFree_rx)
      then show ?thesis by (simp add: x convertToRxddit_form [OF h])
    qed
  qed
qed

lemma convertToRxddit_idem: "convertToRxddit (convertToRxddit x) = convertToRxddit x"
  by (rule convertToRxddit_hostFree) (rule hostFree_converted)

subsection \<open>A converted token is a token\<close>

lemma set_replacePieces:
  "set (replacePieces (\<lambda>m. r) ps) \<subseteq> set (replacePieces (\<lambda>m. m) ps) \<union> set r"
  by (induction ps rule: matchedTexts.induct) auto

lemma set_replaceHost: "set (replaceHost host z) \<subseteq> set z \<union> set (js ''https://rxddit.com'')"
  using set_replacePieces [of "js ''https://rxddit.com''" "scan host z"]
  by (simp add: replaceHost_def stringReplace_def replacePieces_id_scan)

lemma token_rx: "token (js ''https://rxddit.com'')"
  by (simp add: token_def js_def isWhiteSpace_def)

lemma token_converted:
  assumes "token t"
  shows "token (convertToRxddit t)"
proof -
  have "set (convertToRxddit t) \<subseteq> set t \<union> set (js ''https://rxddit.com'')"
    unfolding convertToRxddit_replaceHost
    using set_replaceHost [of hostPattern2 "replaceHost hostPattern1 t"]
      set_replaceHost [of hostPattern1 t]
    by auto
  with assms token_rx show ?thesis
    unfolding token_def list_all_iff by blast
qed

lemma token_append: "token (x @ y) = (token x \<and> token y)"
  by (simp add: token_def)

lemma token_Cons: "token (c # cs) = (\<not> isWhiteSpace c \<and> token cs)"
  by (simp add: token_def)

subsection \<open>The path of a link\<close>

lemma takeWhile_Nil_endOrSpace: "(takeWhile (\<lambda>c. \<not> isWhiteSpace c) z = []) = endOrSpace z"
  by (cases z) (simp_all add: endOrSpace_def)

lemma tailMatch_eq:
  "tailMatch r =
     (case matchLit (js ''/r/'') r of
        None \<Rightarrow> None
      | Some r2 \<Rightarrow> if endOrSpace r2 then None
                   else Some (dropWhile (\<lambda>c. \<not> isWhiteSpace c) r2))"
proof (cases "matchLit (js ''/r/'') r")
  case None
  then show ?thesis by (simp add: tailMatch_def)
next
  case (Some r2)
  show ?thesis
  proof (cases "endOrSpace r2")
    case True
    then have "length (takeWhile (\<lambda>c. \<not> isWhiteSpace c) r2) = 0"
      by (simp only: takeWhile_Nil_endOrSpace [symmetric] list.size)
    with True Some show ?thesis by (simp add: tailMatch_def backtrack_Some)
  next
    case False
    then have "length (takeWhile (\<lambda>c. \<not> isWhiteSpace c) r2) \<noteq> 0"
      by (simp only: takeWhile_Nil_endOrSpace [symmetric] length_0_conv) simp
    with False Some show ?thesis
      by (simp add: tailMatch_def backtrack_Some dropWhile_eq_drop)
  qed
qed

lemma takeWhile_before: "\<not> P w \<Longrightarrow> takeWhile P (xs @ w # ws) = takeWhile P xs"
  by (induction xs) auto

lemma dropWhile_before: "\<not> P w \<Longrightarrow> dropWhile P (xs @ w # ws) = dropWhile P xs @ w # ws"
  by (induction xs) auto

lemma space_not_slash_r: "isWhiteSpace w \<Longrightarrow> canonicalize w \<notin> set (map canonicalize (js ''/r/''))"
  using whitespace_canon [of w] by (auto simp: slash_r_slash)

lemma h_not_slash_r: "canonicalize w = 72 \<Longrightarrow> canonicalize w \<notin> set (map canonicalize (js ''/r/''))"
  by (simp add: slash_r_slash)

lemma endOrSpace_before_space:
  "isWhiteSpace w \<Longrightarrow> endOrSpace (r2 @ w # ws) = endOrSpace r2"
  by (cases r2) (simp_all add: endOrSpace_def)

lemma endOrSpace_before_h:
  "\<not> isWhiteSpace w \<Longrightarrow> endOrSpace (r2 @ w # ws) = startsWithSpace r2"
  by (cases r2) (simp_all add: endOrSpace_def startsWithSpace_def)

lemma endOrSpace_dropWhile: "endOrSpace (dropWhile (\<lambda>c. \<not> isWhiteSpace c) z)"
  by (induction z) (simp_all add: endOrSpace_def)

lemma tailMatch_space:
  assumes "endOrSpace ctx"
  shows "tailMatch (r @ ctx) = map_option (\<lambda>x. x @ ctx) (tailMatch r)"
proof (cases ctx)
  case Nil
  then show ?thesis by (simp add: option.map_ident)
next
  case (Cons w ws)
  with assms have w: "isWhiteSpace w" by (simp add: endOrSpace_def)
  have m: "matchLit (js ''/r/'') (r @ w # ws)
      = map_option (\<lambda>x. x @ w # ws) (matchLit (js ''/r/'') r)"
    by (rule matchLit_context_all) (rule space_not_slash_r [OF w])
  show ?thesis
    unfolding Cons tailMatch_eq m
    by (cases "matchLit (js ''/r/'') r")
       (simp_all add: endOrSpace_before_space [OF w] dropWhile_before w)
qed

lemma tailMatch_h:
  assumes "headKind ctx = AtH"
  shows "(tailMatch (r @ ctx) \<noteq> None) = tailOk r"
proof -
  from assms obtain w ws where ctx: "ctx = w # ws" and w: "\<not> isWhiteSpace w" "canonicalize w = 72"
    by (rule headKind_HD)
  have m: "matchLit (js ''/r/'') (r @ w # ws)
      = map_option (\<lambda>x. x @ w # ws) (matchLit (js ''/r/'') r)"
    by (rule matchLit_context_all) (rule h_not_slash_r [OF w(2)])
  show ?thesis
    unfolding ctx tailMatch_eq m tailOk_def
    by (cases "matchLit (js ''/r/'') r") (simp_all add: endOrSpace_before_h [OF w(1)])
qed

lemma tailMatch_rest: "tailMatch r = Some rest \<Longrightarrow> endOrSpace rest"
  by (auto simp: tailMatch_eq endOrSpace_dropWhile split: option.splits if_splits)

subsection \<open>The patterns in a context\<close>

lemma pattern_forms:
  "rmatch redditPattern1 s Some
     = firstSome (\<lambda>p. case matchLit p s of None \<Rightarrow> None | Some rest \<Rightarrow> tailMatch rest)
         (expand hostPattern1)"
  "rmatch redditPattern2 s Some
     = firstSome (\<lambda>p. case matchLit p s of None \<Rightarrow> None | Some rest \<Rightarrow> tailMatch rest)
         (expand hostPattern2)"
  by (simp_all only: literal_patterns rmatch_host tailMatch_def)

lemma space_not_in_form:
  assumes "isWhiteSpace w" and "p \<in> set (expand hostPattern1) \<union> set (expand hostPattern2)"
  shows "canonicalize w \<notin> set (map canonicalize p)"
proof -
  from assms(1) have w: "canonicalize w \<notin> {72, 46, 47, 58, 84, 80, 83, 87, 82, 69, 68, 73, 67, 79, 77, 76, 78}"
    using whitespace_canon [of w] by auto
  from assms(2) have "set (map canonicalize p)
      \<subseteq> {72, 46, 47, 58, 84, 80, 83, 87, 82, 69, 68, 73, 67, 79, 77, 76, 78}"
    by (auto simp: expand_host1 expand_host2 js_forms simp del: set_map)
  with w show ?thesis by blast
qed

lemma form_space:
  assumes "endOrSpace ctx" and "p \<in> set (expand hostPattern1) \<union> set (expand hostPattern2)"
  shows "(case matchLit p (y @ ctx) of None \<Rightarrow> None | Some rest \<Rightarrow> tailMatch rest)
       = map_option (\<lambda>r. r @ ctx) (case matchLit p y of None \<Rightarrow> None | Some rest \<Rightarrow> tailMatch rest)"
proof (cases ctx)
  case Nil
  then show ?thesis by (simp add: option.map_ident)
next
  case (Cons w ws)
  with assms(1) have w: "isWhiteSpace w" by (simp add: endOrSpace_def)
  have m: "matchLit p (y @ w # ws) = map_option (\<lambda>x. x @ w # ws) (matchLit p y)"
    by (rule matchLit_context_all) (rule space_not_in_form [OF w assms(2)])
  show ?thesis
    unfolding Cons m using tailMatch_space [OF assms(1), unfolded Cons]
    by (cases "matchLit p y") simp_all
qed

lemma pattern_space:
  assumes "endOrSpace ctx"
  shows "rmatch redditPattern1 (y @ ctx) Some
           = map_option (\<lambda>r. r @ ctx) (rmatch redditPattern1 y Some)"
    and "rmatch redditPattern2 (y @ ctx) Some
           = map_option (\<lambda>r. r @ ctx) (rmatch redditPattern2 y Some)"
proof -
  have "firstSome (\<lambda>p. case matchLit p (y @ ctx) of None \<Rightarrow> None | Some rest \<Rightarrow> tailMatch rest)
          (expand hostPattern1)
      = firstSome (\<lambda>p. map_option (\<lambda>r. r @ ctx)
          (case matchLit p y of None \<Rightarrow> None | Some rest \<Rightarrow> tailMatch rest)) (expand hostPattern1)"
    by (rule firstSome_cong) (simp add: form_space [OF assms])
  then show "rmatch redditPattern1 (y @ ctx) Some
           = map_option (\<lambda>r. r @ ctx) (rmatch redditPattern1 y Some)"
    by (simp only: pattern_forms firstSome_map_option)
  have "firstSome (\<lambda>p. case matchLit p (y @ ctx) of None \<Rightarrow> None | Some rest \<Rightarrow> tailMatch rest)
          (expand hostPattern2)
      = firstSome (\<lambda>p. map_option (\<lambda>r. r @ ctx)
          (case matchLit p y of None \<Rightarrow> None | Some rest \<Rightarrow> tailMatch rest)) (expand hostPattern2)"
    by (rule firstSome_cong) (simp add: form_space [OF assms])
  then show "rmatch redditPattern2 (y @ ctx) Some
           = map_option (\<lambda>r. r @ ctx) (rmatch redditPattern2 y Some)"
    by (simp only: pattern_forms firstSome_map_option)
qed

lemma form_h:
  assumes "headKind ctx = AtH" "y \<noteq> []"
    and "p \<in> set (expand hostPattern1) \<union> set (expand hostPattern2)"
  shows "((case matchLit p (y @ ctx) of None \<Rightarrow> None | Some rest \<Rightarrow> tailMatch rest) \<noteq> None)
       = (case matchLit p y of None \<Rightarrow> False | Some rest \<Rightarrow> tailOk rest)"
proof -
  from assms(1) obtain w ws where ctx: "ctx = w # ws" and w: "canonicalize w = 72"
    by (rule headKind_HD)
  then have "breaksHost w" by (simp add: breaksHost_def)
  from breaksHost_tails [OF this assms(3)] assms(2)
  have m: "matchLit p (y @ w # ws) = map_option (\<lambda>x. x @ w # ws) (matchLit p y)"
    by (rule matchLit_context)
  show ?thesis
    unfolding ctx m using tailMatch_h [OF assms(1), unfolded ctx]
    by (cases "matchLit p y") simp_all
qed

lemma firstSome_Some_iff: "(firstSome f xs \<noteq> None) = (\<exists>x \<in> set xs. f x \<noteq> None)"
  by (simp add: firstSome_None_iff)

lemma pattern_h:
  assumes "headKind ctx = AtH" "headKind ctx' = AtH" "y \<noteq> []"
  shows "(rmatch redditPattern1 (y @ ctx) Some = None)
       = (rmatch redditPattern1 (y @ ctx') Some = None)"
    and "(rmatch redditPattern2 (y @ ctx) Some = None)
       = (rmatch redditPattern2 (y @ ctx') Some = None)"
proof -
  have n: "((case matchLit p (y @ ctx) of None \<Rightarrow> None | Some rest \<Rightarrow> tailMatch rest) = None)
      = ((case matchLit p (y @ ctx') of None \<Rightarrow> None | Some rest \<Rightarrow> tailMatch rest) = None)"
    if "p \<in> set (expand hostPattern1) \<union> set (expand hostPattern2)" for p
  proof -
    define X where "X = (case matchLit p (y @ ctx) of None \<Rightarrow> None | Some rest \<Rightarrow> tailMatch rest)"
    define X' where "X' = (case matchLit p (y @ ctx') of None \<Rightarrow> None | Some rest \<Rightarrow> tailMatch rest)"
    define Q where "Q = (case matchLit p y of None \<Rightarrow> False | Some rest \<Rightarrow> tailOk rest)"
    from form_h [OF assms(1,3) that] have 1: "(X \<noteq> None) = Q" by (simp only: X_def Q_def)
    from form_h [OF assms(2,3) that] have 2: "(X' \<noteq> None) = Q" by (simp only: X'_def Q_def)
    from 1 2 have "(X = None) = (X' = None)" by auto
    then show ?thesis by (simp only: X_def X'_def)
  qed
  show "(rmatch redditPattern1 (y @ ctx) Some = None)
       = (rmatch redditPattern1 (y @ ctx') Some = None)"
    unfolding pattern_forms firstSome_None_iff by (intro ball_cong refl n) simp
  show "(rmatch redditPattern2 (y @ ctx) Some = None)
       = (rmatch redditPattern2 (y @ ctx') Some = None)"
    unfolding pattern_forms firstSome_None_iff by (intro ball_cong refl n) simp
qed

lemma pattern_nil:
  "rmatch redditPattern1 [] Some = None" "rmatch redditPattern2 [] Some = None"
  by (simp_all add: literal_patterns rmatch_host expand_host1 expand_host2 js_def)

lemma pattern_rest:
  shows "rmatch redditPattern1 y Some = Some rest \<Longrightarrow> endOrSpace rest"
    and "rmatch redditPattern2 y Some = Some rest \<Longrightarrow> endOrSpace rest"
proof -
  assume "rmatch redditPattern1 y Some = Some rest"
  then obtain p where
    "(case matchLit p y of None \<Rightarrow> None | Some rest \<Rightarrow> tailMatch rest) = Some rest"
    unfolding pattern_forms by (auto dest: firstSome_SomeD)
  then obtain r where "tailMatch r = Some rest" by (auto split: option.splits)
  then show "endOrSpace rest" by (rule tailMatch_rest)
next
  assume "rmatch redditPattern2 y Some = Some rest"
  then obtain p where
    "(case matchLit p y of None \<Rightarrow> None | Some rest \<Rightarrow> tailMatch rest) = Some rest"
    unfolding pattern_forms by (auto dest: firstSome_SomeD)
  then obtain r where "tailMatch r = Some rest" by (auto split: option.splits)
  then show "endOrSpace rest" by (rule tailMatch_rest)
qed

lemma pattern_nonempty:
  shows "rmatch redditPattern1 y Some = Some rest \<Longrightarrow> length rest < length y"
    and "rmatch redditPattern2 y Some = Some rest \<Longrightarrow> length rest < length y"
proof -
  assume a: "rmatch redditPattern1 y Some = Some rest"
  then obtain m where m: "y = m @ rest" by (auto dest: rmatch_Some_suffix)
  from a have "rmatch (Seq hostPattern1 (Seq (Lit (js ''/r/'')) NotSpacePlus)) (m @ rest) Some
      = Some rest"
    by (simp only: m redditPattern1_def)
  from pattern_shape_parts [OF this literal_hosts(1)]
  obtain h r3 tail where "m = h @ r3 @ tail" "linkParts hostPattern1 h r3 tail"
    by (elim exE conjE)
  then have "m \<noteq> []" by (simp add: linkPartsD(3))
  then show "length rest < length y" by (simp add: m)
next
  assume a: "rmatch redditPattern2 y Some = Some rest"
  then obtain m where m: "y = m @ rest" by (auto dest: rmatch_Some_suffix)
  from a have "rmatch (Seq hostPattern2 (Seq (Lit (js ''/r/'')) NotSpacePlus)) (m @ rest) Some
      = Some rest"
    by (simp only: m redditPattern2_def)
  from pattern_shape_parts [OF this literal_hosts(2)]
  obtain h r3 tail where "m = h @ r3 @ tail" "linkParts hostPattern2 h r3 tail"
    by (elim exE conjE)
  then have "m \<noteq> []" by (simp add: linkPartsD(3))
  then show "length rest < length y" by (simp add: m)
qed

subsection \<open>Either pattern\<close>

lemma linkPattern_eq:
  "rmatch linkPattern s Some
     = (case rmatch redditPattern1 s Some of
          Some x \<Rightarrow> Some x
        | None \<Rightarrow> rmatch redditPattern2 s Some)"
  by (simp add: linkPattern_def)

lemma linkPattern_space:
  assumes "endOrSpace ctx"
  shows "rmatch linkPattern (y @ ctx) Some = map_option (\<lambda>r. r @ ctx) (rmatch linkPattern y Some)"
  unfolding linkPattern_eq pattern_space [OF assms]
  by (cases "rmatch redditPattern1 y Some") simp_all

lemma linkPattern_nil: "rmatch linkPattern [] Some = None"
  by (simp add: linkPattern_eq pattern_nil)

lemma linkPattern_rest: "rmatch linkPattern y Some = Some rest \<Longrightarrow> endOrSpace rest"
  by (auto simp: linkPattern_eq split: option.splits dest: pattern_rest)

lemma linkPattern_nonempty: "rmatch linkPattern y Some = Some rest \<Longrightarrow> length rest < length y"
  by (auto simp: linkPattern_eq split: option.splits dest: pattern_nonempty)

lemma linkPattern_first_char: "canonicalize c \<noteq> 72 \<Longrightarrow> rmatch linkPattern (c # cs) Some = None"
  by (simp add: linkPattern_eq pattern_first_char)

subsection \<open>Scanning up to white space\<close>

lemma scan_space_split:
  assumes "endOrSpace ctx"
  shows "scan redditPattern1 (x @ ctx) = scan redditPattern1 x @ scan redditPattern1 ctx"
    and "scan redditPattern2 (x @ ctx) = scan redditPattern2 x @ scan redditPattern2 ctx"
    and "scan linkPattern (x @ ctx) = scan linkPattern x @ scan linkPattern ctx"
  by (rule scan_split;
      simp add: pattern_space [OF assms] linkPattern_space [OF assms] pattern_nil linkPattern_nil
        pattern_nonempty linkPattern_nonempty)+

lemma scan_at_space:
  assumes "isWhiteSpace w"
  shows "scan redditPattern1 (x @ w # y)
           = scan redditPattern1 x @ Unmatched w # scan redditPattern1 y"
    and "scan redditPattern2 (x @ w # y)
           = scan redditPattern2 x @ Unmatched w # scan redditPattern2 y"
    and "scan linkPattern (x @ w # y) = scan linkPattern x @ Unmatched w # scan linkPattern y"
proof -
  from assms have e: "endOrSpace (w # y)" by (simp add: endOrSpace_def)
  from assms have h: "canonicalize w \<noteq> 72" by (rule space_not_h)
  show "scan redditPattern1 (x @ w # y)
           = scan redditPattern1 x @ Unmatched w # scan redditPattern1 y"
    by (simp add: scan_space_split(1) [OF e] scan_skip pattern_first_char [OF h])
  show "scan redditPattern2 (x @ w # y)
           = scan redditPattern2 x @ Unmatched w # scan redditPattern2 y"
    by (simp add: scan_space_split(2) [OF e] scan_skip pattern_first_char [OF h])
  show "scan linkPattern (x @ w # y) = scan linkPattern x @ Unmatched w # scan linkPattern y"
    by (simp add: scan_space_split(3) [OF e] scan_skip linkPattern_first_char [OF h])
qed

subsection \<open>Tokens\<close>

lemma convertToRxddit_Nil: "convertToRxddit [] = []"
  by (simp add: convertToRxddit_replaceHost replaceHost_Nil)

lemma scan_linkPattern_Nil: "scan linkPattern [] = []"
  by (rule scan_Nil) (rule linkPattern_nil)

lemma token_rest:
  assumes "token (m @ rest)" "endOrSpace rest"
  shows "rest = []"
proof (cases rest)
  case Nil
  then show ?thesis .
next
  case (Cons w ws)
  with assms(2) have "isWhiteSpace w" by (simp add: endOrSpace_def)
  with assms(1) Cons show ?thesis by (simp add: token_def)
qed

lemma token_match:
  assumes "token t" and "rmatch r t Some = Some rest" and "endOrSpace rest"
    and "length rest < length t" and "scan r [] = []"
  shows "scan r t = [Matched t]"
proof -
  from assms(2) obtain m where m: "t = m @ rest" by (auto dest: rmatch_Some_suffix)
  with assms(1,3) have rest: "rest = []" by (auto dest: token_rest)
  with m assms(4) have "t \<noteq> []" "rmatch r (t @ []) Some = Some []"
    using assms(2) by simp_all
  then have "scan r (t @ []) = Matched t # scan r []" by (intro scan_match_append)
  with assms(5) show ?thesis by simp
qed

lemma token_match_all:
  assumes "token t"
  shows "rmatch redditPattern1 t Some = Some rest \<Longrightarrow> scan redditPattern1 t = [Matched t]"
    and "rmatch redditPattern2 t Some = Some rest \<Longrightarrow> scan redditPattern2 t = [Matched t]"
    and "rmatch linkPattern t Some = Some rest \<Longrightarrow> scan linkPattern t = [Matched t]"
proof -
  assume a: "rmatch redditPattern1 t Some = Some rest"
  show "scan redditPattern1 t = [Matched t]"
    by (rule token_match [OF assms a pattern_rest(1) [OF a] pattern_nonempty(1) [OF a]
          scan_Nil_all(3)])
next
  assume a: "rmatch redditPattern2 t Some = Some rest"
  show "scan redditPattern2 t = [Matched t]"
    by (rule token_match [OF assms a pattern_rest(2) [OF a] pattern_nonempty(2) [OF a]
          scan_Nil_all(4)])
next
  assume a: "rmatch linkPattern t Some = Some rest"
  show "scan linkPattern t = [Matched t]"
    by (rule token_match [OF assms a linkPattern_rest [OF a] linkPattern_nonempty [OF a]
          scan_linkPattern_Nil])
qed

lemma match_headKind:
  assumes "rmatch redditPattern1 (c # cs) Some \<noteq> None \<or> rmatch redditPattern2 (c # cs) Some \<noteq> None"
  shows "headKind (c # cs) = AtH"
proof -
  have "canonicalize c = 72"
  proof (rule ccontr)
    assume "canonicalize c \<noteq> 72"
    from pattern_first_char [OF this, of cs Some] assms show False by simp
  qed
  moreover from this have "\<not> isWhiteSpace c" using space_not_h [of c] by auto
  ultimately show ?thesis by (rule headKind_HI [rotated])
qed

lemma tokenPieces_simps:
  "tokenPieces x [] = map Unmatched x"
  "M \<noteq> [] \<Longrightarrow> tokenPieces x M = map Unmatched x @ [Matched M]"
  "tokenPieces (c # x) M = Unmatched c # tokenPieces x M"
  by (simp_all add: tokenPieces_def)

lemma token_scan:
  assumes "token t"
  shows "\<exists>x M. t = x @ M \<and> scan redditPattern1 t = tokenPieces x M
           \<and> (M \<noteq> [] \<longrightarrow> headKind M = AtH)"
    and "\<exists>x M. t = x @ M \<and> scan redditPattern2 t = tokenPieces x M
           \<and> (M \<noteq> [] \<longrightarrow> headKind M = AtH)"
proof -
  have gen: "\<exists>x M. t = x @ M \<and> scan r t = tokenPieces x M \<and> (M \<noteq> [] \<longrightarrow> headKind M = AtH)"
    if nil: "scan r [] = []"
      and hit: "\<And>y rest. token y \<Longrightarrow> rmatch r y Some = Some rest \<Longrightarrow> scan r y = [Matched y]"
      and kind: "\<And>c cs. rmatch r (c # cs) Some \<noteq> None \<Longrightarrow> headKind (c # cs) = AtH"
    for r
    using assms
  proof (induction t)
    case Nil
    have "[] = [] @ [] \<and> scan r [] = tokenPieces [] [] \<and> ([] \<noteq> [] \<longrightarrow> headKind [] = AtH)"
      by (simp add: nil tokenPieces_def)
    then show ?case by (intro exI)
  next
    case (Cons c cs)
    from Cons.prems have tok: "token cs" by (simp add: token_def)
    show ?case
    proof (cases "rmatch r (c # cs) Some")
      case None
      from Cons.IH [OF tok] obtain x M where IH: "cs = x @ M" "scan r cs = tokenPieces x M"
        "M \<noteq> [] \<longrightarrow> headKind M = AtH"
        by (elim exE conjE)
      from None IH have "c # cs = (c # x) @ M \<and> scan r (c # cs) = tokenPieces (c # x) M
          \<and> (M \<noteq> [] \<longrightarrow> headKind M = AtH)"
        by (simp add: scan_skip tokenPieces_simps)
      then show ?thesis by (intro exI)
    next
      case (Some rest)
      from hit [OF Cons.prems Some] kind [of c cs] Some
      have "c # cs = [] @ (c # cs) \<and> scan r (c # cs) = tokenPieces [] (c # cs)
          \<and> (c # cs \<noteq> [] \<longrightarrow> headKind (c # cs) = AtH)"
        by (simp add: tokenPieces_def)
      then show ?thesis by (intro exI)
    qed
  qed
  show "\<exists>x M. t = x @ M \<and> scan redditPattern1 t = tokenPieces x M
           \<and> (M \<noteq> [] \<longrightarrow> headKind M = AtH)"
    by (rule gen) (simp_all add: scan_Nil_all token_match_all(1) match_headKind)
  show "\<exists>x M. t = x @ M \<and> scan redditPattern2 t = tokenPieces x M
           \<and> (M \<noteq> [] \<longrightarrow> headKind M = AtH)"
    by (rule gen) (simp_all add: scan_Nil_all token_match_all(2) match_headKind)
qed

lemma replace_tokenPieces:
  "replacePieces convertToRxddit (tokenPieces x M) = x @ convertToRxddit M"
  by (simp add: tokenPieces_def pieces_simps convertToRxddit_Nil)

lemma matched_tokenPieces: "set (matchedTexts (tokenPieces x M)) \<subseteq> {M}"
  by (simp add: tokenPieces_def pieces_simps)

lemma stringReplace_hostFree:
  assumes "hostFree z"
  shows "stringReplace redditPattern2 f z = z"
proof -
  have "delimited []" by (simp add: delimited_def)
  from skip_free(4) [OF assms this] show ?thesis
    by (simp add: stringReplace_def scan_Nil_all pieces_simps)
qed

text \<open>A match of the second pattern before a link of the first, before and after the
  link is converted.\<close>

lemma second_after_first:
  assumes "headKind M = AtH"
  shows "(rmatch redditPattern2 (c # x @ M) Some = None)
       = (rmatch redditPattern2 (c # x @ convertToRxddit M) Some = None)"
  using pattern_h(2) [of M "convertToRxddit M" "c # x"] assms
  by (simp add: convertToRxddit_headKind)

lemma convert_before_converted:
  assumes "headKind M = AtH"
  shows "convertToRxddit (y @ convertToRxddit M) = convertToRxddit (y @ M)"
proof -
  from assms have "delimited M" "delimited (convertToRxddit M)"
    by (simp_all add: delimited_headKind convertToRxddit_headKind)
  then show ?thesis
    by (simp add: convertToRxddit_append convertToRxddit_idem)
qed

lemma token_links:
  assumes "token t"
  shows "stringReplace redditPattern2 convertToRxddit
           (stringReplace redditPattern1 convertToRxddit t)
         = stringReplace linkPattern convertToRxddit t
       \<and> set (stringMatch linkPattern t)
           \<subseteq> set (stringMatch redditPattern1 t) \<union> set (stringMatch redditPattern2 t)
       \<and> (\<forall>L \<in> set (stringMatch redditPattern1 t) \<union> set (stringMatch redditPattern2 t).
            \<exists>M \<in> set (stringMatch linkPattern t). suffixOf L M)"
  using assms
proof (induction t)
  case Nil
  then show ?case
    by (simp add: stringReplace_def stringMatch_def scan_Nil_all scan_linkPattern_Nil)
next
  case (Cons c cs)
  let ?c = convertToRxddit
  let ?t = "c # cs"
  from Cons.prems have tok: "token cs" by (simp add: token_def)
  from token_scan(1) [OF tok] obtain x M where cs: "cs = x @ M"
    and s1: "scan redditPattern1 cs = tokenPieces x M" and M: "M \<noteq> [] \<longrightarrow> headKind M = AtH"
    by (elim exE conjE)
  have f1: "stringReplace redditPattern1 ?c cs = x @ ?c M"
    by (simp add: stringReplace_def s1 replace_tokenPieces)
  from token_scan(1) [OF Cons.prems] obtain x1 M1 where t1: "?t = x1 @ M1"
    and p1: "scan redditPattern1 ?t = tokenPieces x1 M1"
    by (elim exE conjE)
  from token_scan(2) [OF Cons.prems] obtain x2 M2 where t2: "?t = x2 @ M2"
    and p2: "scan redditPattern2 ?t = tokenPieces x2 M2"
    by (elim exE conjE)
  have whole: "\<forall>L \<in> set (stringMatch redditPattern1 ?t) \<union> set (stringMatch redditPattern2 ?t).
      suffixOf L ?t"
  proof
    fix L assume "L \<in> set (stringMatch redditPattern1 ?t) \<union> set (stringMatch redditPattern2 ?t)"
    then have "L = M1 \<or> L = M2"
      using matched_tokenPieces [of x1 M1] matched_tokenPieces [of x2 M2]
      by (auto simp: stringMatch_def p1 p2)
    with t1 t2 show "suffixOf L ?t" unfolding suffixOf_def by metis
  qed
  show ?case
  proof (cases "rmatch redditPattern1 ?t Some")
    case (Some rest)
    then have a: "rmatch linkPattern ?t Some = Some rest" by (simp add: linkPattern_eq)
    have m1: "scan redditPattern1 ?t = [Matched ?t]"
      by (rule token_match_all(1) [OF Cons.prems Some])
    have ma: "scan linkPattern ?t = [Matched ?t]"
      by (rule token_match_all(3) [OF Cons.prems a])
    have "stringReplace redditPattern2 ?c (?c ?t) = ?c ?t"
      by (rule stringReplace_hostFree) (rule hostFree_converted)
    then have "stringReplace redditPattern2 ?c (stringReplace redditPattern1 ?c ?t)
        = stringReplace linkPattern ?c ?t"
      by (simp add: stringReplace_def m1 ma)
    moreover have "set (stringMatch linkPattern ?t)
        \<subseteq> set (stringMatch redditPattern1 ?t) \<union> set (stringMatch redditPattern2 ?t)"
      by (simp add: stringMatch_def m1 ma)
    moreover have "\<forall>L \<in> set (stringMatch redditPattern1 ?t) \<union> set (stringMatch redditPattern2 ?t).
        \<exists>M \<in> set (stringMatch linkPattern ?t). suffixOf L M"
      using whole by (simp add: stringMatch_def ma)
    ultimately show ?thesis by (intro conjI)
  next
    case None
    then have r1: "stringReplace redditPattern1 ?c ?t = c # x @ ?c M"
      using f1 by (simp add: stringReplace_def scan_skip)
    from None have k1: "stringMatch redditPattern1 ?t = stringMatch redditPattern1 cs"
      by (simp add: stringMatch_def scan_skip)
    show ?thesis
    proof (cases "rmatch redditPattern2 ?t Some")
      case (Some rest)
      with None have a: "rmatch linkPattern ?t Some = Some rest" by (simp add: linkPattern_eq)
      have m2: "scan redditPattern2 ?t = [Matched ?t]"
        by (rule token_match_all(2) [OF Cons.prems Some])
      have ma: "scan linkPattern ?t = [Matched ?t]"
        by (rule token_match_all(3) [OF Cons.prems a])
      have "stringReplace redditPattern2 ?c (c # x @ ?c M) = ?c ?t"
      proof (cases "M = []")
        case True
        with cs have e: "c # x @ ?c M = ?t" by (simp add: convertToRxddit_Nil)
        show ?thesis unfolding e by (simp add: stringReplace_def m2)
      next
        case False
        with M have h: "headKind M = AtH" by simp
        from Some have "rmatch redditPattern2 (c # x @ M) Some \<noteq> None" by (simp add: cs)
        then have "rmatch redditPattern2 (c # x @ ?c M) Some \<noteq> None"
          by (simp add: second_after_first [OF h])
        then obtain r' where r': "rmatch redditPattern2 (c # x @ ?c M) Some = Some r'" by auto
        from Cons.prems cs have "token (c # x)" "token M" by (simp_all add: token_def)
        then have "token (c # x @ ?c M)"
          using token_converted [of M] by (simp add: token_def)
        from token_match_all(2) [OF this r']
        have "stringReplace redditPattern2 ?c (c # x @ ?c M) = ?c ((c # x) @ ?c M)"
          by (simp add: stringReplace_def)
        also have "\<dots> = ?c ((c # x) @ M)" by (rule convert_before_converted [OF h])
        finally show ?thesis by (simp add: cs)
      qed
      then have "stringReplace redditPattern2 ?c (stringReplace redditPattern1 ?c ?t)
          = stringReplace linkPattern ?c ?t"
        by (simp add: r1) (simp add: stringReplace_def ma)
      moreover have "set (stringMatch linkPattern ?t)
          \<subseteq> set (stringMatch redditPattern1 ?t) \<union> set (stringMatch redditPattern2 ?t)"
        by (simp add: stringMatch_def m2 ma)
      moreover have "\<forall>L \<in> set (stringMatch redditPattern1 ?t) \<union> set (stringMatch redditPattern2 ?t).
          \<exists>M \<in> set (stringMatch linkPattern ?t). suffixOf L M"
        using whole by (simp add: stringMatch_def ma)
      ultimately show ?thesis by (intro conjI)
    next
      case None2: None
      with None have a: "rmatch linkPattern ?t Some = None" by (simp add: linkPattern_eq)
      from None2 have k2: "stringMatch redditPattern2 ?t = stringMatch redditPattern2 cs"
        by (simp add: stringMatch_def scan_skip)
      from a have ka: "stringMatch linkPattern ?t = stringMatch linkPattern cs"
        by (simp add: stringMatch_def scan_skip)
      from a have ra: "stringReplace linkPattern ?c ?t = c # stringReplace linkPattern ?c cs"
        by (simp add: stringReplace_def scan_skip)
      have "rmatch redditPattern2 (c # x @ ?c M) Some = None"
      proof (cases "M = []")
        case True
        with None2 cs show ?thesis by (simp add: convertToRxddit_Nil)
      next
        case False
        with M have h: "headKind M = AtH" by simp
        from None2 have "rmatch redditPattern2 (c # x @ M) Some = None" by (simp add: cs)
        then show ?thesis by (simp add: second_after_first [OF h])
      qed
      then have "stringReplace redditPattern2 ?c (c # x @ ?c M)
          = c # stringReplace redditPattern2 ?c (x @ ?c M)"
        by (simp add: stringReplace_def scan_skip)
      with Cons.IH [OF tok] have "stringReplace redditPattern2 ?c (stringReplace redditPattern1 ?c ?t)
          = stringReplace linkPattern ?c ?t"
        by (simp add: r1 ra f1)
      with Cons.IH [OF tok] show ?thesis by (simp add: k1 k2 ka)
    qed
  qed
qed

subsection \<open>Whole texts\<close>

lemma split_at_space:
  assumes "\<not> token s"
  obtains t w rest where "s = t @ w # rest" "token t" "isWhiteSpace w"
proof -
  let ?t = "takeWhile (\<lambda>c. \<not> isWhiteSpace c) s"
  let ?d = "dropWhile (\<lambda>c. \<not> isWhiteSpace c) s"
  from assms have "?d \<noteq> []" by (auto simp: token_def list_all_iff)
  then obtain w rest where d: "?d = w # rest" by (cases ?d) auto
  then have "\<not> \<not> isWhiteSpace w"
    using hd_dropWhile [of "\<lambda>c. \<not> isWhiteSpace c" s] by auto
  then have w: "isWhiteSpace w" by simp
  have "s = ?t @ ?d" by simp
  then have s: "s = ?t @ w # rest" by (simp only: d)
  have "token ?t" by (auto simp: token_def list_all_iff dest: set_takeWhileD)
  with s w that show ?thesis by blast
qed

lemma stringReplace_at_space:
  assumes "isWhiteSpace w"
  shows "stringReplace redditPattern1 f (x @ w # y)
           = stringReplace redditPattern1 f x @ w # stringReplace redditPattern1 f y"
    and "stringReplace redditPattern2 f (x @ w # y)
           = stringReplace redditPattern2 f x @ w # stringReplace redditPattern2 f y"
    and "stringReplace linkPattern f (x @ w # y)
           = stringReplace linkPattern f x @ w # stringReplace linkPattern f y"
  by (simp_all add: stringReplace_def scan_at_space [OF assms] replacePieces_append)

lemma stringMatch_at_space:
  assumes "isWhiteSpace w"
  shows "stringMatch redditPattern1 (x @ w # y)
           = stringMatch redditPattern1 x @ stringMatch redditPattern1 y"
    and "stringMatch redditPattern2 (x @ w # y)
           = stringMatch redditPattern2 x @ stringMatch redditPattern2 y"
    and "stringMatch linkPattern (x @ w # y)
           = stringMatch linkPattern x @ stringMatch linkPattern y"
  by (simp_all add: stringMatch_def scan_at_space [OF assms] matchedTexts_append)

lemma text_links:
  "stringReplace redditPattern2 convertToRxddit
       (stringReplace redditPattern1 convertToRxddit s)
     = stringReplace linkPattern convertToRxddit s
   \<and> set (stringMatch linkPattern s)
       \<subseteq> set (stringMatch redditPattern1 s) \<union> set (stringMatch redditPattern2 s)
   \<and> (\<forall>L \<in> set (stringMatch redditPattern1 s) \<union> set (stringMatch redditPattern2 s).
        \<exists>M \<in> set (stringMatch linkPattern s). suffixOf L M)"
proof (induction s rule: length_induct)
  case (1 s)
  show ?case
  proof (cases "token s")
    case True
    then show ?thesis by (rule token_links)
  next
    case False
    then obtain t w rest where s: "s = t @ w # rest" and t: "token t" and w: "isWhiteSpace w"
      by (rule split_at_space)
    from 1 s have IH:
      "stringReplace redditPattern2 convertToRxddit
           (stringReplace redditPattern1 convertToRxddit rest)
         = stringReplace linkPattern convertToRxddit rest"
      "set (stringMatch linkPattern rest)
         \<subseteq> set (stringMatch redditPattern1 rest) \<union> set (stringMatch redditPattern2 rest)"
      "\<forall>L \<in> set (stringMatch redditPattern1 rest) \<union> set (stringMatch redditPattern2 rest).
          \<exists>M \<in> set (stringMatch linkPattern rest). suffixOf L M"
      by simp_all
    from token_links [OF t] have T:
      "stringReplace redditPattern2 convertToRxddit
           (stringReplace redditPattern1 convertToRxddit t)
         = stringReplace linkPattern convertToRxddit t"
      "set (stringMatch linkPattern t)
         \<subseteq> set (stringMatch redditPattern1 t) \<union> set (stringMatch redditPattern2 t)"
      "\<forall>L \<in> set (stringMatch redditPattern1 t) \<union> set (stringMatch redditPattern2 t).
          \<exists>M \<in> set (stringMatch linkPattern t). suffixOf L M"
      by simp_all
    have a: "stringReplace redditPattern2 convertToRxddit
           (stringReplace redditPattern1 convertToRxddit s)
         = stringReplace linkPattern convertToRxddit s"
      by (simp add: s stringReplace_at_space [OF w] IH(1) T(1))
    have b: "set (stringMatch linkPattern s)
         \<subseteq> set (stringMatch redditPattern1 s) \<union> set (stringMatch redditPattern2 s)"
      using IH(2) T(2) by (auto simp: s stringMatch_at_space [OF w])
    have c: "\<forall>L \<in> set (stringMatch redditPattern1 s) \<union> set (stringMatch redditPattern2 s).
          \<exists>M \<in> set (stringMatch linkPattern s). suffixOf L M"
    proof
      fix L assume "L \<in> set (stringMatch redditPattern1 s) \<union> set (stringMatch redditPattern2 s)"
      then have "L \<in> set (stringMatch redditPattern1 t) \<union> set (stringMatch redditPattern2 t)
          \<or> L \<in> set (stringMatch redditPattern1 rest) \<union> set (stringMatch redditPattern2 rest)"
        by (auto simp: s stringMatch_at_space [OF w])
      then have "(\<exists>M \<in> set (stringMatch linkPattern t). suffixOf L M)
          \<or> (\<exists>M \<in> set (stringMatch linkPattern rest). suffixOf L M)"
        using IH(3) T(3) by blast
      then show "\<exists>M \<in> set (stringMatch linkPattern s). suffixOf L M"
        by (auto simp: s stringMatch_at_space [OF w])
    qed
    from a b c show ?thesis by (intro conjI)
  qed
qed

lemma convertMessageLinks_passes:
  "convertMessageLinks s
     = stringReplace redditPattern2 convertToRxddit
         (stringReplace redditPattern1 convertToRxddit s)"
  by (simp add: convertMessageLinks_def REDDIT_PATTERNS_def)

lemma set_detect:
  "set (detectRedditLinks s)
     = set (stringMatch redditPattern1 s) \<union> set (stringMatch redditPattern2 s)"
  by (simp add: detect_eq set_newSet)

lemma form_not_rx:
  assumes "isForm hostPattern1 h \<or> isForm hostPattern2 h"
  shows "js ''https://rxddit.com'' @ X \<noteq> h @ Y"
proof
  assume e: "js ''https://rxddit.com'' @ X = h @ Y"
  from assms show False
  proof
    assume h: "isForm hostPattern1 h"
    have "rmatch hostPattern1 (h @ Y) Some = Some Y"
      using host1_form [OF h, where rest = Y and k = Some] by simp
    moreover have "rmatch hostPattern1 (js ''https://rxddit.com'' @ X) Some = None"
      by (rule rx_no_match)
    ultimately show False by (simp only: e) simp
  next
    assume h: "isForm hostPattern2 h"
    have "rmatch hostPattern2 (h @ Y) Some = Some Y"
      using host2_form [OF h, where rest = Y and k = Some] by simp
    moreover have "rmatch hostPattern2 (js ''https://rxddit.com'' @ X) Some = None"
      by (rule rx_no_match)
    ultimately show False by (simp only: e) simp
  qed
qed

lemma detected_converted:
  assumes "K \<in> set (detectRedditLinks s)"
  shows "convertToRxddit K \<noteq> K" and "delimited K"
proof -
  from detected_shape [OF assms] obtain h r3 tail where K: "K = h @ r3 @ tail"
    and parts: "linkParts hostPattern1 h r3 tail \<or> linkParts hostPattern2 h r3 tail"
    by (elim exE conjE)
  from parts have form: "isForm hostPattern1 h \<or> isForm hostPattern2 h"
    by (auto dest: linkPartsD(1))
  have "convertToRxddit K = js ''https://rxddit.com'' @ convertToRxddit (r3 @ tail)"
    unfolding K by (rule convertToRxddit_form [OF form])
  moreover have "js ''https://rxddit.com'' @ convertToRxddit (r3 @ tail) \<noteq> h @ (r3 @ tail)"
    by (rule form_not_rx [OF form])
  ultimately show "convertToRxddit K \<noteq> K" by (simp add: K)
  show "delimited K"
    unfolding K using form_delimited [OF form, of "r3 @ tail"] .
qed

lemmas text_eval = link_eval hostFree_def pathAndQuery_def endOrSpace_def startsWithSpace_def
  occurrences_def linkPattern_def

subsection \<open>Order of the detected links\<close>

text \<open>
  Claim C4 says that detection lists the links in order of their first appearance in the
  text, so that an old.reddit.com link that appears before a bare reddit.com link is listed
  first. It is not: the matches of the first pattern come before those of the second.
\<close>

theorem detectRedditLinks_pattern_order:
  "detectRedditLinks (js ''https://old.reddit.com/r/a https://reddit.com/r/b'')
     = [js ''https://reddit.com/r/b'', js ''https://old.reddit.com/r/a'']"
  by (simp add: link_eval)

text \<open>
  Claim C4, amended. For every text, detection returns the distinct matches of the first
  pattern (reddit.com and www.reddit.com) in order of first appearance, followed by the
  distinct matches of the second pattern (old.reddit.com and new.reddit.com) in order of
  first appearance: the result is the set of the first pattern's occurrences followed by
  the set of the second's, the occurrences of each pattern come at strictly increasing
  offsets, and each is a non-empty piece of the text found at its offset.
\<close>

theorem detectRedditLinks_grouped:
  "detectRedditLinks s
     = newSet (map snd (occurrences redditPattern1 s))
       @ newSet (map snd (occurrences redditPattern2 s))
   \<and> sorted_wrt (<) (map fst (occurrences redditPattern1 s))
   \<and> sorted_wrt (<) (map fst (occurrences redditPattern2 s))
   \<and> list_all (\<lambda>(i, l). l \<noteq> [] \<and> take (length l) (drop i s) = l)
        (occurrences redditPattern1 s @ occurrences redditPattern2 s)"
proof -
  have m: "map snd (occurrences r s) = stringMatch r s" for r
    by (simp add: occurrences_def stringMatch_def snd_offsets)
  have 1: "detectRedditLinks s
     = newSet (map snd (occurrences redditPattern1 s))
       @ newSet (map snd (occurrences redditPattern2 s))"
    by (simp only: m detect_groups)
  have 2: "sorted_wrt (<) (map fst (occurrences redditPattern1 s))"
    unfolding occurrences_def
    by (rule offsets_sorted) (rule matched_nonempty(1) [unfolded stringMatch_def])
  have 3: "sorted_wrt (<) (map fst (occurrences redditPattern2 s))"
    unfolding occurrences_def
    by (rule offsets_sorted) (rule matched_nonempty(2) [unfolded stringMatch_def])
  have ne: "snd p \<noteq> []"
    if "p \<in> set (occurrences redditPattern1 s) \<or> p \<in> set (occurrences redditPattern2 s)" for p
  proof -
    from that have "snd p \<in> set (map snd (occurrences redditPattern1 s))
        \<or> snd p \<in> set (map snd (occurrences redditPattern2 s))"
      by auto
    then show ?thesis
      unfolding m using matched_nonempty [of s] by auto
  qed
  have 4: "list_all (\<lambda>(i, l). l \<noteq> [] \<and> take (length l) (drop i s) = l)
        (occurrences redditPattern1 s @ occurrences redditPattern2 s)"
    unfolding list_all_iff
  proof
    fix p assume p: "p \<in> set (occurrences redditPattern1 s @ occurrences redditPattern2 s)"
    obtain j l where jl: "p = (j, l)" by (cases p)
    from p have "p \<in> set (occurrences redditPattern1 s) \<or> p \<in> set (occurrences redditPattern2 s)"
      by simp
    from ne [OF this] this
    show "case p of (i, l) \<Rightarrow> l \<noteq> [] \<and> take (length l) (drop i s) = l"
      by (auto simp: jl occurrences_located)
  qed
  from 1 2 3 4 show ?thesis by (intro conjI)
qed

text \<open>
  A text with a new.reddit.com link at offset 4 and a www.reddit.com link at offset 35.
\<close>

theorem detectRedditLinks_grouped_witness:
  "detectRedditLinks (js ''see https://new.reddit.com/r/a and HTTP://www.Reddit.com/r/b'')
     = [js ''HTTP://www.Reddit.com/r/b'', js ''https://new.reddit.com/r/a'']
   \<and> occurrences redditPattern1 (js ''see https://new.reddit.com/r/a and HTTP://www.Reddit.com/r/b'')
     = [(35, js ''HTTP://www.Reddit.com/r/b'')]
   \<and> occurrences redditPattern2 (js ''see https://new.reddit.com/r/a and HTTP://www.Reddit.com/r/b'')
     = [(4, js ''https://new.reddit.com/r/a'')]"
  using detectRedditLinks_grouped [of "js ''see https://new.reddit.com/r/a and HTTP://www.Reddit.com/r/b''"]
  by (simp add: text_eval)

subsection \<open>Conversion of one link\<close>




subsection \<open>Detection deduplicates, conversion does not\<close>

text \<open>
  Claim C7. For every text: detection never lists a link twice. The links of the text,
  the matches of either pattern found from left to right, cut the text into links and
  the code units between them, and conversion replaces every link by its conversion
  where it stands and keeps every other code unit as it is. Every such link is a detected
  link. Every detected link is changed by its conversion and is the end of a link of the
  text, within which it is converted: the conversion of that link of the text ends with
  the conversion of the detected link. So when a link \<open>L\<close> occurs twice among the links
  of a text, detection lists \<open>L\<close> exactly once, and conversion replaces both
  occurrences where they stand and converts what comes before, between and after them on
  its own, where the code units outside links are unchanged.
\<close>

theorem convertMessageLinks_every_occurrence:
  "distinct (detectRedditLinks s)
   \<and> replacePieces (\<lambda>m. m) (scan linkPattern s) = s
   \<and> convertMessageLinks s = replacePieces convertToRxddit (scan linkPattern s)
   \<and> set (matchedTexts (scan linkPattern s)) \<subseteq> set (detectRedditLinks s)
   \<and> (\<forall>K \<in> set (detectRedditLinks s). convertToRxddit K \<noteq> K
        \<and> (\<exists>M \<in> set (matchedTexts (scan linkPattern s)). \<exists>x. M = x @ K
              \<and> convertToRxddit M = convertToRxddit x @ convertToRxddit K))
   \<and> (scan linkPattern s = ps @ Matched L # qs @ Matched L # rs \<longrightarrow>
        count_list (detectRedditLinks s) L = 1
      \<and> s = replacePieces (\<lambda>m. m) ps @ L @ replacePieces (\<lambda>m. m) qs @ L
              @ replacePieces (\<lambda>m. m) rs
      \<and> convertMessageLinks s
          = replacePieces convertToRxddit ps @ convertToRxddit L
              @ replacePieces convertToRxddit qs @ convertToRxddit L
              @ replacePieces convertToRxddit rs)"
proof -
  note T = text_links [of s]
  have dist: "distinct (detectRedditLinks s)"
    by (simp add: detect_eq distinct_newSet)
  have seg: "replacePieces (\<lambda>m. m) (scan linkPattern s) = s"
    by (rule replacePieces_id_scan)
  have conv: "convertMessageLinks s = replacePieces convertToRxddit (scan linkPattern s)"
    using T by (simp add: convertMessageLinks_passes stringReplace_def)
  have sub: "set (matchedTexts (scan linkPattern s)) \<subseteq> set (detectRedditLinks s)"
    using T by (simp add: set_detect stringMatch_def)
  have each: "\<forall>K \<in> set (detectRedditLinks s). convertToRxddit K \<noteq> K
        \<and> (\<exists>M \<in> set (matchedTexts (scan linkPattern s)). \<exists>x. M = x @ K
              \<and> convertToRxddit M = convertToRxddit x @ convertToRxddit K)"
  proof
    fix K assume K: "K \<in> set (detectRedditLinks s)"
    then have "K \<in> set (stringMatch redditPattern1 s) \<union> set (stringMatch redditPattern2 s)"
      by (simp only: set_detect)
    with T obtain M where M: "M \<in> set (stringMatch linkPattern s)" "suffixOf K M" by blast
    then obtain x where x: "M = x @ K" by (auto simp: suffixOf_def)
    have "convertToRxddit (x @ K) = convertToRxddit x @ convertToRxddit K"
      by (rule convertToRxddit_append) (rule detected_converted(2) [OF K])
    with M(1) x have "\<exists>M \<in> set (matchedTexts (scan linkPattern s)). \<exists>x. M = x @ K
        \<and> convertToRxddit M = convertToRxddit x @ convertToRxddit K"
      unfolding stringMatch_def by blast
    with detected_converted(1) [OF K]
    show "convertToRxddit K \<noteq> K
        \<and> (\<exists>M \<in> set (matchedTexts (scan linkPattern s)). \<exists>x. M = x @ K
              \<and> convertToRxddit M = convertToRxddit x @ convertToRxddit K)" ..
  qed
  have twice: "count_list (detectRedditLinks s) L = 1
      \<and> s = replacePieces (\<lambda>m. m) ps @ L @ replacePieces (\<lambda>m. m) qs @ L
              @ replacePieces (\<lambda>m. m) rs
      \<and> convertMessageLinks s
          = replacePieces convertToRxddit ps @ convertToRxddit L
              @ replacePieces convertToRxddit qs @ convertToRxddit L
              @ replacePieces convertToRxddit rs"
    if sc: "scan linkPattern s = ps @ Matched L # qs @ Matched L # rs"
  proof -
    have "L \<in> set (matchedTexts (scan linkPattern s))"
      by (simp add: sc matchedTexts_append)
    with sub have "L \<in> set (detectRedditLinks s)" by blast
    with dist have 1: "count_list (detectRedditLinks s) L = 1" by (rule distinct_count_one)
    from seg have 2: "s = replacePieces (\<lambda>m. m) ps @ L @ replacePieces (\<lambda>m. m) qs @ L
        @ replacePieces (\<lambda>m. m) rs"
      by (simp add: sc replacePieces_append)
    have 3: "convertMessageLinks s
          = replacePieces convertToRxddit ps @ convertToRxddit L
              @ replacePieces convertToRxddit qs @ convertToRxddit L
              @ replacePieces convertToRxddit rs"
      by (simp add: conv sc replacePieces_append)
    from 1 2 3 show ?thesis by (intro conjI)
  qed
  have twice': "scan linkPattern s = ps @ Matched L # qs @ Matched L # rs \<longrightarrow>
        count_list (detectRedditLinks s) L = 1
      \<and> s = replacePieces (\<lambda>m. m) ps @ L @ replacePieces (\<lambda>m. m) qs @ L
              @ replacePieces (\<lambda>m. m) rs
      \<and> convertMessageLinks s
          = replacePieces convertToRxddit ps @ convertToRxddit L
              @ replacePieces convertToRxddit qs @ convertToRxddit L
              @ replacePieces convertToRxddit rs"
    by (rule impI) (rule twice)
  from dist seg conv sub each twice' show ?thesis by (intro conjI)
qed

text \<open>
  A text with a Reddit URL that is not a link (its path does not start with \<^verbatim>\<open>/r/\<close>),
  which is kept as it is, and a link with an insecure scheme that occurs twice.
\<close>

theorem convertMessageLinks_every_occurrence_witness:
  "scan linkPattern
       (js ''see https://reddit.com/user/x http://old.reddit.com/r/a! http://old.reddit.com/r/a!'')
     = map Unmatched (js ''see https://reddit.com/user/x '')
       @ Matched (js ''http://old.reddit.com/r/a!'') # [Unmatched 32]
       @ Matched (js ''http://old.reddit.com/r/a!'') # []
   \<and> count_list (detectRedditLinks
       (js ''see https://reddit.com/user/x http://old.reddit.com/r/a! http://old.reddit.com/r/a!''))
       (js ''http://old.reddit.com/r/a!'') = 1
   \<and> convertMessageLinks
       (js ''see https://reddit.com/user/x http://old.reddit.com/r/a! http://old.reddit.com/r/a!'')
     = js ''see https://reddit.com/user/x https://rxddit.com/r/a! https://rxddit.com/r/a!''"
proof -
  let ?s = "js ''see https://reddit.com/user/x http://old.reddit.com/r/a! http://old.reddit.com/r/a!''"
  let ?L = "js ''http://old.reddit.com/r/a!''"
  let ?ps = "map Unmatched (js ''see https://reddit.com/user/x '')"
  have sc: "scan linkPattern ?s = ?ps @ Matched ?L # [Unmatched 32] @ Matched ?L # []"
    by (simp add: text_eval)
  have cL: "convertToRxddit ?L = js ''https://rxddit.com/r/a!''"
    by (simp add: text_eval)
  note every = convertMessageLinks_every_occurrence [of ?s ?ps ?L "[Unmatched 32]" "[]"]
  note twice = every [THEN conjunct2, THEN conjunct2, THEN conjunct2, THEN conjunct2,
      THEN conjunct2, THEN mp, OF sc]
  from twice [THEN conjunct1] twice [THEN conjunct2, THEN conjunct2]
  have "count_list (detectRedditLinks ?s) ?L = 1
      \<and> convertMessageLinks ?s
          = replacePieces convertToRxddit ?ps @ convertToRxddit ?L
              @ replacePieces convertToRxddit [Unmatched 32] @ convertToRxddit ?L
              @ replacePieces convertToRxddit []"
    by (rule conjI)
  then have "count_list (detectRedditLinks ?s) ?L = 1
      \<and> convertMessageLinks ?s
          = js ''see https://reddit.com/user/x https://rxddit.com/r/a! https://rxddit.com/r/a!''"
    by (simp add: cL replacePieces_Unmatched) (simp add: js_def)
  with sc show ?thesis by (intro conjI) simp_all
qed

end
